theory Spec2Isabelle
  imports Main "HOL-Library.Word" "HOL-Library.Sublist"
begin

section \<open>Coroutines\<close>

text \<open>
  The embedding follows \<^verbatim>\<open>burger/net/Processor.cc\<close> and \<^verbatim>\<open>burger/net/Scheduler.cc\<close>.
  C++ members are written without their trailing underscore (\<^verbatim>\<open>stop_\<close> is the field
  \<open>stop\<close>, \<^verbatim>\<open>load_\<close> is \<open>load\<close>, and so on), since a name may not end in an underscore here.
  The \<^verbatim>\<open>Processor.h\<close> among the sources is of an earlier revision than \<^verbatim>\<open>Processor.cc\<close>;
  the members that \<^verbatim>\<open>Processor.cc\<close> uses and the header does not declare are typed from
  their use.

  A \<^verbatim>\<open>Coroutine::ptr\<close> is a shared pointer: several containers may hold the same coroutine.
  Coroutine objects therefore live in a store (\<open>cos\<close>) and are referred to by address.
\<close>

text \<open>Modelled from the spec: \<^verbatim>\<open>Coroutine.h\<close> is not among the sources. The state of a
  coroutine is one of INIT, HOLD, EXEC, READY, TERM, EXCEPT; the constructor \<open>TERM\<close> is
  written \<open>State.TERM\<close> below.\<close>

datatype State = INIT | HOLD | EXEC | READY | TERM | EXCEPT

text \<open>A callback is opaque: the two lambdas of the constructor, the bound
  \<^verbatim>\<open>CoEpoll::poll\<close> of \<^verbatim>\<open>run\<close>, or a callable supplied by the user.\<close>

datatype Callback = WakeCb | TimerQueCb | EpollPollCb | UserCb nat

record Coroutine =
  cb :: Callback
  name :: string
  state :: State

datatype error = Fatal string | AssertionFailed string | NullDereference

type_synonym co_ptr = nat
type_synonym task = "Callback \<times> string"

text \<open>The registrations of a CoEpoll: for a file descriptor, the events of interest and the
  coroutine that waits for them.\<close>

type_synonym epoll_map = "int \<rightharpoonup> (int \<times> co_ptr option)"

text \<open>Ghost events recording how \<^verbatim>\<open>pendingTasks_\<close> is accessed relative to \<^verbatim>\<open>mutex_\<close>.\<close>

datatype sync_event = Lock | Unlock | PendingAppend | PendingSwap

text \<open>Modelled from the spec: \<^verbatim>\<open>Timer.h\<close> and \<^verbatim>\<open>CoTimerQueue.cc\<close> are not among the
  sources. A timer has a payload (a coroutine to resume, or a callback with its name), an
  absolute deadline and an interval (0 for a one-shot timer). Times are in microseconds.\<close>

record Timer =
  payload :: "co_ptr + task"
  deadline :: int
  interval :: int

section \<open>Processor\<close>

record Processor =
  stop :: bool
  load :: "64 word"
  threadId :: nat
  runnableCoQue :: "co_ptr list"
  idleCoQue :: "co_ptr list"
  pendingTasks :: "task list"
  addingPendingTasks :: bool
  epolling :: bool
  wakeupFd :: nat
  epoll :: epoll_map
  timerQueue :: "Timer list"
  cos :: "co_ptr \<Rightarrow> Coroutine"
  nextCo :: co_ptr
  swapLog :: "co_ptr list"
  syncLog :: "sync_event list"

text \<open>
  \<open>load\<close> is a \<^verbatim>\<open>size_t\<close>; \<open>epolling\<close> is what \<^verbatim>\<open>epoll_.isEpolling()\<close> reads;
  \<open>wakeupFd\<close> counts the 8-byte writes made to the eventfd; \<open>cos\<close> and \<open>nextCo\<close> are the
  coroutine store and its allocator. \<open>swapLog\<close> (the coroutines swapped in by \<^verbatim>\<open>run\<close>,
  in order) and \<open>syncLog\<close> are ghost fields: no operation reads them.
\<close>

text \<open>Modelled from the spec: \<^verbatim>\<open>Coroutine.cc\<close> is not among the sources. A coroutine
  is spawned in state INIT; \<^verbatim>\<open>getState\<close>, \<^verbatim>\<open>setState\<close> and \<^verbatim>\<open>setName\<close> read and write
  its fields. \<^verbatim>\<open>std::make_shared\<close> allocates the next free address of the store.\<close>

definition newCoroutine :: "Callback \<Rightarrow> string \<Rightarrow> Coroutine" where
  "newCoroutine c n = \<lparr>cb = c, name = n, state = INIT\<rparr>"

definition make_shared :: "Coroutine \<Rightarrow> Processor \<Rightarrow> co_ptr \<times> Processor" where
  "make_shared c p =
     (nextCo p, p\<lparr>cos := (cos p)(nextCo p := c), nextCo := Suc (nextCo p)\<rparr>)"

definition getState :: "co_ptr \<Rightarrow> Processor \<Rightarrow> State" where
  "getState co p = state (cos p co)"

definition setState :: "co_ptr \<Rightarrow> State \<Rightarrow> Processor \<Rightarrow> Processor" where
  "setState co s p = p\<lparr>cos := (cos p)(co := (cos p co)\<lparr>state := s\<rparr>)\<rparr>"

definition setName :: "co_ptr \<Rightarrow> string \<Rightarrow> Processor \<Rightarrow> Processor" where
  "setName co n p = p\<lparr>cos := (cos p)(co := (cos p co)\<lparr>name := n\<rparr>)\<rparr>"

text \<open>Modelled from the spec: \<^verbatim>\<open>Coroutine::reset\<close> is not among the sources.
  ``reset(newCallback): only legal in TERM or INIT; reuses the stack, clears context,
  returns to INIT.''\<close>

definition reset :: "co_ptr \<Rightarrow> Callback \<Rightarrow> Processor \<Rightarrow> error + Processor" where
  "reset co c p =
     (if getState co p = State.TERM \<or> getState co p = INIT
      then Inr (p\<lparr>cos := (cos p)(co := (cos p co)\<lparr>cb := c, state := INIT\<rparr>)\<rparr>)
      else Inl (AssertionFailed ''reset''))"

definition wakeupEpollCo :: "Processor \<Rightarrow> Processor" where
  "wakeupEpollCo p = p\<lparr>wakeupFd := wakeupFd p + 1\<rparr>"

definition isEpolling :: "Processor \<Rightarrow> bool" where
  "isEpolling p = epolling p"

definition setEpolling :: "bool \<Rightarrow> Processor \<Rightarrow> Processor" where
  "setEpolling b p = p\<lparr>epolling := b\<rparr>"

text \<open>\<^verbatim>\<open>Processor::resetAndGetCo\<close>\<close>

definition resetAndGetCo :: "Callback \<Rightarrow> string \<Rightarrow> Processor \<Rightarrow> error + (co_ptr \<times> Processor)" where
  "resetAndGetCo c n p =
     (if idleCoQue p = [] then Inr (make_shared (newCoroutine c n) p)
      else
        let co = hd (idleCoQue p);
            p1 = p\<lparr>idleCoQue := tl (idleCoQue p)\<rparr>
        in case reset co c p1 of
             Inl e \<Rightarrow> Inl e
           | Inr p2 \<Rightarrow> Inr (co, setName co n p2))"

text \<open>\<^verbatim>\<open>Processor::addTask(Coroutine::ptr co)\<close>\<close>

definition addTask :: "co_ptr \<Rightarrow> Processor \<Rightarrow> Processor" where
  "addTask co p =
     (let p1 = setState co EXEC p;
          p2 = p1\<lparr>runnableCoQue := runnableCoQue p1 @ [co]\<rparr>;
          p3 = p2\<lparr>load := load p2 + 1\<rparr>
      in if isEpolling p3 then wakeupEpollCo p3 else p3)"

text \<open>\<^verbatim>\<open>Processor::addTask(const Coroutine::Callback& cb, const std::string& name)\<close>\<close>

definition addTaskCb :: "Callback \<Rightarrow> string \<Rightarrow> Processor \<Rightarrow> error + Processor" where
  "addTaskCb c n p =
     (case resetAndGetCo c n p of
        Inl e \<Rightarrow> Inl e
      | Inr (co, p1) \<Rightarrow> Inr (addTask co p1))"

text \<open>\<^verbatim>\<open>Processor::addPendingTask\<close>: the append is made with no \<^verbatim>\<open>lock_guard\<close>
  in scope, so the ghost log records it between no \<open>Lock\<close> and \<open>Unlock\<close>.\<close>

definition addPendingTask :: "Callback \<Rightarrow> string \<Rightarrow> Processor \<Rightarrow> Processor" where
  "addPendingTask c n p =
     wakeupEpollCo (p\<lparr>pendingTasks := pendingTasks p @ [(c, n)],
                      syncLog := syncLog p @ [PendingAppend]\<rparr>)"

text \<open>The \<^verbatim>\<open>for\<close> loop of \<^verbatim>\<open>addPendingTasksIntoQueue\<close> over the swapped-out vector.\<close>

fun addTasks :: "task list \<Rightarrow> Processor \<Rightarrow> error + Processor" where
  "addTasks [] p = Inr p"
| "addTasks (t # ts) p =
     (case addTaskCb (fst t) (snd t) p of
        Inl e \<Rightarrow> Inl e
      | Inr p1 \<Rightarrow> addTasks ts p1)"

text \<open>\<^verbatim>\<open>Processor::addPendingTasksIntoQueue\<close>\<close>

definition addPendingTasksIntoQueue :: "Processor \<Rightarrow> error + Processor" where
  "addPendingTasksIntoQueue p =
     (let tasks = pendingTasks p;
          p1 = p\<lparr>addingPendingTasks := True\<rparr>;
          p2 = p1\<lparr>pendingTasks := [],
                  syncLog := syncLog p1 @ [Lock, PendingSwap, Unlock]\<rparr>
      in case addTasks tasks p2 of
           Inl e \<Rightarrow> Inl e
         | Inr p3 \<Rightarrow> Inr (p3\<lparr>addingPendingTasks := False\<rparr>))"

text \<open>\<^verbatim>\<open>Processor::stop\<close>\<close>

definition Processor_stop :: "Processor \<Rightarrow> Processor" where
  "Processor_stop p =
     (let p1 = p\<lparr>stop := True\<rparr>
      in if isEpolling p1 then wakeupEpollCo p1 else p1)"

text \<open>Modelled from the spec: the macro \<^verbatim>\<open>CRITICAL\<close> (\<^verbatim>\<open>Log.h\<close>) is not among the
  sources; the spec's error table gives misuse the policy ``Fatal: abort with
  diagnostic''.\<close>

definition CRITICAL :: "string \<Rightarrow> error + 'a" where
  "CRITICAL msg = Inl (Fatal msg)"

text \<open>\<^verbatim>\<open>Processor::isInProcThread\<close>, \<^verbatim>\<open>abortNotInProcThread\<close> and
  \<^verbatim>\<open>assertInProcThread\<close>. The first argument is \<^verbatim>\<open>util::tid()\<close>, the id of the
  calling thread.\<close>

definition isInProcThread :: "nat \<Rightarrow> Processor \<Rightarrow> bool" where
  "isInProcThread tid p = (threadId p = tid)"

definition abortNotInProcThread :: "error + Processor" where
  "abortNotInProcThread = CRITICAL ''Processor::abortNotInLoopThread''"

definition assertInProcThread :: "nat \<Rightarrow> Processor \<Rightarrow> error + Processor" where
  "assertInProcThread tid p =
     (if \<not> isInProcThread tid p then abortNotInProcThread else Inr p)"

text \<open>Modelled from the spec: \<^verbatim>\<open>CoEpoll.cc\<close> is not among the sources. ``updateEvent(fd,
  interest, waiter) adds or modifies the kernel registration''; ``removeEvent(fd) deletes
  the kernel registration and clears both slots''. The two definitions describe a call made
  on the owning thread, the only kind of call that the turns of a script make. What CoEpoll
  does when it is called on another thread is not fixed here (the error table of the spec
  makes cross-thread use of an object owned by a Processor a fatal misuse).\<close>

definition CoEpoll_updateEvent ::
  "int \<Rightarrow> int \<Rightarrow> co_ptr option \<Rightarrow> epoll_map \<Rightarrow> error + epoll_map" where
  "CoEpoll_updateEvent fd events co m = Inr (m(fd \<mapsto> (events, co)))"

definition CoEpoll_removeEvent :: "int \<Rightarrow> epoll_map \<Rightarrow> error + epoll_map" where
  "CoEpoll_removeEvent fd m = Inr (m(fd := None))"

text \<open>\<^verbatim>\<open>Processor::updateEvent\<close> and \<^verbatim>\<open>Processor::removeEvent\<close>. The first argument is
  what \<^verbatim>\<open>epoll_.updateEvent\<close> (or \<^verbatim>\<open>epoll_.removeEvent\<close>) does at this call, since the
  code of CoEpoll is not available. The calling thread \<open>tid\<close> is an argument of the model
  although the two bodies never look at it: they hold the forwarding call and nothing
  else.\<close>

definition updateEvent ::
  "(int \<Rightarrow> int \<Rightarrow> co_ptr option \<Rightarrow> epoll_map \<Rightarrow> error + epoll_map) \<Rightarrow>
   nat \<Rightarrow> int \<Rightarrow> int \<Rightarrow> co_ptr option \<Rightarrow> Processor \<Rightarrow> error + Processor" where
  "updateEvent epollUpdate tid fd events co p =
     (case epollUpdate fd events co (epoll p) of
        Inl e \<Rightarrow> Inl e
      | Inr m \<Rightarrow> Inr (p\<lparr>epoll := m\<rparr>))"

definition removeEvent ::
  "(int \<Rightarrow> epoll_map \<Rightarrow> error + epoll_map) \<Rightarrow> nat \<Rightarrow> int \<Rightarrow> Processor \<Rightarrow> error + Processor" where
  "removeEvent epollRemove tid fd p =
     (case epollRemove fd (epoll p) of
        Inl e \<Rightarrow> Inl e
      | Inr m \<Rightarrow> Inr (p\<lparr>epoll := m\<rparr>))"

subsection \<open>Swapping a coroutine in\<close>

text \<open>
  What a coroutine does between \<^verbatim>\<open>swapIn\<close> and the moment control comes back is user
  code (or \<^verbatim>\<open>CoEpoll::poll\<close>, or one of the two constructor lambdas), so it is an input
  of the model: a \<open>turn\<close> lists the calls made on the Processor while the coroutine has
  control (by the coroutine itself, or by other threads in the meantime) and the state
  the coroutine is in when it gives control back.
\<close>

datatype action =
    CallAddTaskCo co_ptr
  | CallAddTask Callback string
  | CallAddPendingTask Callback string
  | CallStop
  | CallSetEpolling bool
  | CallUpdateEvent int int "co_ptr option"
  | CallRemoveEvent int

record turn =
  actions :: "action list"
  result :: State

fun perform :: "action \<Rightarrow> Processor \<Rightarrow> error + Processor" where
  "perform (CallAddTaskCo co) p = Inr (addTask co p)"
| "perform (CallAddTask c n) p = addTaskCb c n p"
| "perform (CallAddPendingTask c n) p = Inr (addPendingTask c n p)"
| "perform CallStop p = Inr (Processor_stop p)"
| "perform (CallSetEpolling b) p = Inr (setEpolling b p)"
| "perform (CallUpdateEvent fd ev co) p =
     updateEvent CoEpoll_updateEvent (threadId p) fd ev co p"
| "perform (CallRemoveEvent fd) p = removeEvent CoEpoll_removeEvent (threadId p) fd p"

fun performAll :: "action list \<Rightarrow> Processor \<Rightarrow> error + Processor" where
  "performAll [] p = Inr p"
| "performAll (a # as) p =
     (case perform a p of
        Inl e \<Rightarrow> Inl e
      | Inr p1 \<Rightarrow> performAll as p1)"

text \<open>Modelled from the spec: \<^verbatim>\<open>Coroutine::swapIn\<close> is not among the sources.
  ``swapIn() transitions the target to EXEC''; ``swapping into a TERM/EXCEPT coroutine is
  a fatal programming error''. The ghost field \<open>swapLog\<close> records the target.\<close>

definition swapIn :: "co_ptr \<Rightarrow> turn \<Rightarrow> Processor \<Rightarrow> error + Processor" where
  "swapIn co t p =
     (if getState co p = State.TERM \<or> getState co p = EXCEPT
      then CRITICAL ''swapIn''
      else
        case performAll (actions t) (setState co EXEC (p\<lparr>swapLog := swapLog p @ [co]\<rparr>)) of
          Inl e \<Rightarrow> Inl e
        | Inr p1 \<Rightarrow> Inr (setState co (result t) p1))"

subsection \<open>The main loop\<close>

text \<open>The condition of the \<^verbatim>\<open>while\<close> loop of \<^verbatim>\<open>Processor::run\<close>.\<close>

definition loopCond :: "Processor \<Rightarrow> bool" where
  "loopCond p = (\<not> stop p \<or> runnableCoQue p \<noteq> [])"

text \<open>The choice of \<^verbatim>\<open>cur\<close>: the head of the runnable queue, or the epoll coroutine.\<close>

definition pickCur :: "co_ptr \<Rightarrow> Processor \<Rightarrow> co_ptr \<times> Processor" where
  "pickCur epollCo p =
     (if runnableCoQue p = [] then (epollCo, setEpolling True p)
      else (hd (runnableCoQue p), p\<lparr>runnableCoQue := tl (runnableCoQue p)\<rparr>))"

text \<open>The test made after \<^verbatim>\<open>cur->swapIn()\<close> returns.\<close>

definition retire :: "co_ptr \<Rightarrow> Processor \<Rightarrow> Processor" where
  "retire cur p =
     (if getState cur p = State.TERM
      then p\<lparr>load := load p - 1, idleCoQue := idleCoQue p @ [cur]\<rparr>
      else p)"

text \<open>One iteration of the loop.\<close>

definition run_iter :: "co_ptr \<Rightarrow> turn \<Rightarrow> Processor \<Rightarrow> error + Processor" where
  "run_iter epollCo t p =
     (case pickCur epollCo p of
        (cur, p1) \<Rightarrow>
          (case swapIn cur t p1 of
             Inl e \<Rightarrow> Inl e
           | Inr p2 \<Rightarrow> addPendingTasksIntoQueue (retire cur p2)))"

text \<open>
  The loop may run for ever, so it is driven by a script holding one turn for each
  \<^verbatim>\<open>swapIn\<close>. There are three outcomes: the loop was left (\<open>Exit\<close>, with the unused part
  of the script and the state), a fatal error or a failed assertion ended the program
  (\<open>Raised\<close>), or the script ended while the loop was still running (\<open>Unfinished\<close>, with
  the state reached so far).
\<close>

datatype loop_result =
    Exit (unused: "turn list") (exitState: Processor)
  | Unfinished (reached: Processor)
  | Raised (raised: error)

fun run_loop :: "co_ptr \<Rightarrow> turn list \<Rightarrow> Processor \<Rightarrow> loop_result" where
  "run_loop epollCo [] p = (if loopCond p then Unfinished p else Exit [] p)"
| "run_loop epollCo (t # ts) p =
     (if loopCond p
      then (case run_iter epollCo t p of
              Inl e \<Rightarrow> Raised e
            | Inr p1 \<Rightarrow> run_loop epollCo ts p1)
      else Exit (t # ts) p)"

text \<open>The statements of \<^verbatim>\<open>Processor::run\<close> before the loop, after the thread check.
  \<^verbatim>\<open>setHookEnabled(true)\<close> sets a flag of the calling thread, which is not part of the
  Processor.\<close>

definition run_init :: "Processor \<Rightarrow> co_ptr \<times> Processor" where
  "run_init p =
     (case make_shared (newCoroutine EpollPollCb ''Epoll'') (p\<lparr>stop := False\<rparr>) of
        (epollCo, p1) \<Rightarrow> (epollCo, setState epollCo EXEC p1))"

text \<open>\<^verbatim>\<open>Processor::run\<close>, called on thread \<open>tid\<close>. After the loop the epoll coroutine is
  swapped in once more, which takes the next turn of the script. \<open>None\<close> means that
  \<^verbatim>\<open>run\<close> has not returned at the end of the script.\<close>

definition run :: "nat \<Rightarrow> turn list \<Rightarrow> Processor \<Rightarrow> (error + Processor) option" where
  "run tid ts p =
     (case assertInProcThread tid p of
        Inl e \<Rightarrow> Some (Inl e)
      | Inr p0 \<Rightarrow>
          (case run_init p0 of
             (epollCo, p1) \<Rightarrow>
               (case run_loop epollCo ts p1 of
                  Unfinished p2 \<Rightarrow> None
                | Raised e \<Rightarrow> Some (Inl e)
                | Exit ts1 p2 \<Rightarrow>
                    (case ts1 of
                       [] \<Rightarrow> None
                     | t # ts2 \<Rightarrow> Some (swapIn epollCo t p2)))))"

subsection \<open>Construction\<close>

text \<open>The member initialisers of \<^verbatim>\<open>Processor::Processor\<close> on thread \<open>tid\<close>.\<close>

definition emptyProcessor :: "nat \<Rightarrow> Processor" where
  "emptyProcessor tid =
     \<lparr>stop = False, load = 0, threadId = tid, runnableCoQue = [], idleCoQue = [],
      pendingTasks = [], addingPendingTasks = False, epolling = False, wakeupFd = 0,
      epoll = Map.empty, timerQueue = [], cos = (\<lambda>_. newCoroutine (UserCb 0) []), nextCo = 0,
      swapLog = [], syncLog = []\<rparr>"

text \<open>\<^verbatim>\<open>Processor::Processor\<close>. The first argument says whether the thread-local
  \<^verbatim>\<open>t_proc\<close> is already set.\<close>

definition Processor_ctor :: "bool \<Rightarrow> nat \<Rightarrow> error + Processor" where
  "Processor_ctor t_proc tid =
     (if t_proc then CRITICAL ''Another Processor exists in this Thread''
      else
        case addTaskCb WakeCb ''Wake'' (emptyProcessor tid) of
          Inl e \<Rightarrow> Inl e
        | Inr p1 \<Rightarrow> addTaskCb TimerQueCb ''timerQue'' p1)"

text \<open>
  The bodies of the two lambdas. Each is a loop that may run for ever; it is driven by
  what it observes at each iteration: the value of \<^verbatim>\<open>stop_\<close> read by the loop test and,
  for the first lambda, the value returned by \<^verbatim>\<open>::read\<close> in \<^verbatim>\<open>consumeWakeUp\<close>. \<open>None\<close>
  means that the lambda has not returned at the end of the observations.
\<close>

datatype loop_exit = StopSeen | ReadFailed

text \<open>\<^verbatim>\<open>Processor::consumeWakeUp\<close>: the argument is what \<^verbatim>\<open>::read\<close> returned; a value
  other than 8 is logged and returned all the same.\<close>

definition consumeWakeUp :: "int \<Rightarrow> int" where
  "consumeWakeUp n = n"

fun WakeLambda :: "(bool \<times> int) list \<Rightarrow> loop_exit option" where
  "WakeLambda [] = None"
| "WakeLambda ((stp, n) # obs) =
     (if stp then Some StopSeen
      else if consumeWakeUp n < 0 then Some ReadFailed
      else WakeLambda obs)"

fun TimerQueLambda :: "bool list \<Rightarrow> loop_exit option" where
  "TimerQueLambda [] = None"
| "TimerQueLambda (stp # obs) = (if stp then Some StopSeen else TimerQueLambda obs)"

section \<open>Scheduler\<close>

type_synonym proc_ptr = nat

datatype thread_ref = SchedulerThread | WorkThread nat

text \<open>Who executes \<^verbatim>\<open>joinThread\<close>: the thread that called \<^verbatim>\<open>stop\<close>, or the detached
  helper thread that \<^verbatim>\<open>stop\<close> created.\<close>

datatype joiner = Caller | Helper

record Scheduler =
  running :: bool
  quit :: bool
  threadNum :: "64 word"
  mainProc :: "proc_ptr option"
  workProcVec :: "proc_ptr list"
  workThreadVec :: "nat list"
  threadJoinable :: bool
  procs :: "proc_ptr \<Rightarrow> Processor"
  joinLog :: "(joiner \<times> thread_ref) list"
  detached :: nat

text \<open>
  \<open>threadNum\<close> is a \<^verbatim>\<open>size_t\<close>; \<open>threadJoinable\<close> is \<^verbatim>\<open>thread_.joinable()\<close>; \<open>procs\<close>
  holds the Processors the pointers refer to. \<open>joinLog\<close> lists the joins completed so far
  and by whom, and \<open>detached\<close> counts the helper threads created by \<^verbatim>\<open>stop\<close> that have not
  finished \<^verbatim>\<open>joinThread\<close> yet.

  The round-robin index is not a member of the Scheduler: it is the function-local
  \<^verbatim>\<open>static size_t index\<close> of \<^verbatim>\<open>pickOneProcesser\<close>, one variable for the whole process,
  shared by all Schedulers. It starts at 0 when the process starts. The functions that go
  through \<^verbatim>\<open>pickOneProcesser\<close> take its value as their first argument and return the new
  value with their result.
\<close>

text \<open>\<^verbatim>\<open>Scheduler::pickOneProcesser\<close>, with the assertion enabled.\<close>

definition pickOneProcesser :: "nat \<Rightarrow> Scheduler \<Rightarrow> error + (proc_ptr option \<times> nat)" where
  "pickOneProcesser index s =
     (if workProcVec s = [] \<and> mainProc s = None then CRITICAL ''start scheduler first''
      else if workProcVec s \<noteq> [] then
        (if \<not> index < length (workProcVec s)
         then Inl (AssertionFailed ''index < workProcVec_.size()'')
         else Inr (Some (workProcVec s ! index), Suc index mod length (workProcVec s)))
      else Inr (mainProc s, index))"

text \<open>\<^verbatim>\<open>Scheduler::addTask\<close>\<close>

definition Scheduler_addTask ::
  "nat \<Rightarrow> Callback \<Rightarrow> string \<Rightarrow> Scheduler \<Rightarrow> error + (nat \<times> Scheduler)" where
  "Scheduler_addTask index c n s =
     (case pickOneProcesser index s of
        Inl e \<Rightarrow> Inl e
      | Inr (proc, index1) \<Rightarrow>
          (case proc of
             None \<Rightarrow> Inl (AssertionFailed ''proc != nullptr'')
           | Some pr \<Rightarrow>
               Inr (index1, s\<lparr>procs := (procs s)(pr := addPendingTask c n (procs s pr))\<rparr>)))"

text \<open>A sequence of calls of \<^verbatim>\<open>Scheduler::addTask\<close>, in order.\<close>

fun submitAll :: "nat \<Rightarrow> task list \<Rightarrow> Scheduler \<Rightarrow> error + (nat \<times> Scheduler)" where
  "submitAll index [] s = Inr (index, s)"
| "submitAll index (t # ts) s =
     (case Scheduler_addTask index (fst t) (snd t) s of
        Inl e \<Rightarrow> Inl e
      | Inr (index1, s1) \<Rightarrow> submitAll index1 ts s1)"

text \<open>Modelled from the spec: \<^verbatim>\<open>CoTimerQueue::addTimer\<close> is not among the sources.
  The queue is ordered by deadline, timers with equal deadlines keep their insertion
  order, and a timer that becomes the head wakes the epoll coroutine up.\<close>

fun insertTimer :: "Timer \<Rightarrow> Timer list \<Rightarrow> Timer list" where
  "insertTimer t [] = [t]"
| "insertTimer t (x # xs) =
     (if deadline t < deadline x then t # x # xs else x # insertTimer t xs)"

definition addTimer :: "co_ptr + task \<Rightarrow> int \<Rightarrow> int \<Rightarrow> Processor \<Rightarrow> Processor" where
  "addTimer pl w i p =
     (let t = \<lparr>payload = pl, deadline = w, interval = i\<rparr>;
          p1 = p\<lparr>timerQueue := insertTimer t (timerQueue p)\<rparr>
      in if hd (timerQueue p1) = t \<and> (timerQueue p = [] \<or> w < deadline (hd (timerQueue p)))
         then wakeupEpollCo p1 else p1)"

text \<open>The timer entry points of the Scheduler. The two overloads of each (a coroutine,
  or a callback with a name) differ in the payload only. The result holds the Processor
  that owns the new timer and the new value of the index. \<open>now\<close> is
  \<^verbatim>\<open>Timestamp::now()\<close>.\<close>

definition onPicked ::
  "nat \<Rightarrow> Scheduler \<Rightarrow> (Processor \<Rightarrow> Processor) \<Rightarrow> error + (proc_ptr \<times> nat \<times> Scheduler)" where
  "onPicked index s f =
     (case pickOneProcesser index s of
        Inl e \<Rightarrow> Inl e
      | Inr (proc, index1) \<Rightarrow>
          (case proc of
             None \<Rightarrow> Inl NullDereference
           | Some pr \<Rightarrow> Inr (pr, index1, s\<lparr>procs := (procs s)(pr := f (procs s pr))\<rparr>)))"

definition runAt ::
  "nat \<Rightarrow> int \<Rightarrow> co_ptr + task \<Rightarrow> Scheduler \<Rightarrow> error + (proc_ptr \<times> nat \<times> Scheduler)" where
  "runAt index w pl s = onPicked index s (addTimer pl w 0)"

definition runAfter ::
  "nat \<Rightarrow> int \<Rightarrow> int \<Rightarrow> co_ptr + task \<Rightarrow> Scheduler \<Rightarrow> error + (proc_ptr \<times> nat \<times> Scheduler)" where
  "runAfter index now delay pl s = runAt index (now + delay) pl s"

definition runEvery ::
  "nat \<Rightarrow> int \<Rightarrow> int \<Rightarrow> co_ptr + task \<Rightarrow> Scheduler \<Rightarrow> error + (proc_ptr \<times> nat \<times> Scheduler)" where
  "runEvery index now i pl s = onPicked index s (addTimer pl (now + i) i)"

text \<open>\<^verbatim>\<open>Scheduler::start\<close> up to the call of \<^verbatim>\<open>mainProc->run()\<close>. The Processors and the
  worker threads are made by code that is not among the sources, so their addresses are
  arguments: \<open>m\<close> is the new main Processor, and for the iteration \<open>i\<close> of the loop \<open>wt i\<close>
  is the new \<^verbatim>\<open>ProcessThread\<close> and \<open>wp i\<close> the Processor that \<^verbatim>\<open>startProcess\<close> returned.
  The loop runs \<^verbatim>\<open>threadNum_ - 1\<close> times, computed on \<^verbatim>\<open>size_t\<close>. Nothing here writes
  \<^verbatim>\<open>quit_\<close>.\<close>

definition Scheduler_start ::
  "proc_ptr \<Rightarrow> (nat \<Rightarrow> nat) \<Rightarrow> (nat \<Rightarrow> proc_ptr) \<Rightarrow> Scheduler \<Rightarrow> Scheduler" where
  "Scheduler_start m wt wp s =
     (if running s then s
      else s\<lparr>mainProc := Some m,
             workThreadVec := workThreadVec s @ map wt [0..<unat (threadNum s - 1)],
             workProcVec := workProcVec s @ map wp [0..<unat (threadNum s - 1)],
             running := True\<rparr>)"

text \<open>The threads that \<^verbatim>\<open>Scheduler::joinThread\<close> joins, in the order in which it joins
  them.\<close>

definition joinTargets :: "Scheduler \<Rightarrow> thread_ref list" where
  "joinTargets s =
     (if threadJoinable s then [SchedulerThread] else []) @ map WorkThread (workThreadVec s)"

text \<open>A \<^verbatim>\<open>join\<close> blocks until the joined thread has ended, that is, for the thread of a
  Processor, until its \<^verbatim>\<open>run\<close> has returned. Which threads have ended is an input,
  \<open>ended\<close>. \<open>None\<close> means that the joining thread is blocked in a join.\<close>

fun joinEach ::
  "joiner \<Rightarrow> (thread_ref \<Rightarrow> bool) \<Rightarrow> thread_ref list \<Rightarrow> Scheduler \<Rightarrow> Scheduler option" where
  "joinEach who ended [] s = Some s"
| "joinEach who ended (t # ts) s =
     (if ended t then joinEach who ended ts (s\<lparr>joinLog := joinLog s @ [(who, t)]\<rparr>)
      else None)"

text \<open>\<^verbatim>\<open>Scheduler::joinThread\<close>, executed by \<open>who\<close>.\<close>

definition joinThread :: "joiner \<Rightarrow> (thread_ref \<Rightarrow> bool) \<Rightarrow> Scheduler \<Rightarrow> Scheduler option" where
  "joinThread who ended s =
     (case joinEach who ended (joinTargets s) s of
        None \<Rightarrow> None
      | Some s1 \<Rightarrow> Some (s1\<lparr>threadJoinable := False, quit := True\<rparr>))"

text \<open>The loop of \<^verbatim>\<open>Scheduler::stop\<close> over \<^verbatim>\<open>workProcVec_\<close>.\<close>

fun stopAll :: "proc_ptr list \<Rightarrow> (proc_ptr \<Rightarrow> Processor) \<Rightarrow> (proc_ptr \<Rightarrow> Processor)" where
  "stopAll [] ps = ps"
| "stopAll (w # ws) ps = stopAll ws (ps(w := Processor_stop (ps w)))"

text \<open>The statements of \<^verbatim>\<open>Scheduler::stop\<close> between the test of \<^verbatim>\<open>running_\<close> and the test of
  the hook flag, for the main Processor \<open>m\<close>.\<close>

definition requestStop :: "proc_ptr \<Rightarrow> Scheduler \<Rightarrow> Scheduler" where
  "requestStop m s =
     (let s1 = s\<lparr>running := False\<rparr>;
          s2 = s1\<lparr>procs := (procs s1)(m := Processor_stop (procs s1 m))\<rparr>;
          s3 = s2\<lparr>mainProc := None\<rparr>
      in s3\<lparr>procs := stopAll (workProcVec s3) (procs s3)\<rparr>)"

text \<open>\<^verbatim>\<open>Scheduler::stop\<close>. The first argument is \<^verbatim>\<open>isHookEnable()\<close>, the hook flag of the
  calling thread. \<open>None\<close> means that the caller is blocked in a join.\<close>

definition Scheduler_stop ::
  "bool \<Rightarrow> (thread_ref \<Rightarrow> bool) \<Rightarrow> Scheduler \<Rightarrow> (error + Scheduler) option" where
  "Scheduler_stop isHookEnable ended s =
     (if \<not> running s then Some (Inr s)
      else
        case mainProc s of
          None \<Rightarrow> Some (Inl NullDereference)
        | Some m \<Rightarrow>
            if isHookEnable
            then Some (Inr ((requestStop m s)\<lparr>detached := Suc (detached (requestStop m s))\<rparr>))
            else (case joinThread Caller ended (requestStop m s) of
                    None \<Rightarrow> None
                  | Some s5 \<Rightarrow> Some (Inr s5)))"

text \<open>A detached helper thread, when it gets to run: as long as it is blocked in a join
  nothing changes.\<close>

definition helperThread :: "(thread_ref \<Rightarrow> bool) \<Rightarrow> Scheduler \<Rightarrow> Scheduler" where
  "helperThread ended s =
     (if detached s = 0 then s
      else case joinThread Helper ended s of
             None \<Rightarrow> s
           | Some s1 \<Rightarrow> s1\<lparr>detached := detached s - 1\<rparr>)"

text \<open>\<^verbatim>\<open>Scheduler::wait\<close>: the caller is blocked (\<open>None\<close>) until \<^verbatim>\<open>quit_\<close> is true.\<close>

definition wait :: "Scheduler \<Rightarrow> Scheduler option" where
  "wait s = (if quit s then Some s else None)"

text \<open>Modelled from the spec: \<^verbatim>\<open>Scheduler.h\<close>, which holds the member initialisers, is
  not among the sources. Before \<^verbatim>\<open>start\<close> nothing is running and there is no Processor:
  \<^verbatim>\<open>start\<close> ``constructs the main Processor on the calling thread'' and spawns the
  workers. \<open>n\<close> is the number of threads (\<^verbatim>\<open>setThreadNum\<close>) and \<open>ps\<close> the memory the
  Processor pointers will refer to.\<close>

definition newScheduler :: "64 word \<Rightarrow> (proc_ptr \<Rightarrow> Processor) \<Rightarrow> Scheduler" where
  "newScheduler n ps =
     \<lparr>running = False, quit = False, threadNum = n, mainProc = None, workProcVec = [],
      workThreadVec = [], threadJoinable = False, procs = ps, joinLog = [],
      detached = 0\<rparr>"

text \<open>Schedulers used to exercise the properties on concrete inputs. \<open>demoWorkers\<close> has
  been started with four threads: main Processor 0 and workers 1, 2, 3. \<open>demoFewer\<close> is
  another Scheduler of the same process, started with three threads: main Processor 10 and
  workers 11, 12. \<open>demoRestarted\<close> is \<open>demoFewer\<close> stopped from a thread without hooks once
  its threads had ended, and then started again.\<close>

definition demoWorkers :: Scheduler where
  "demoWorkers = Scheduler_start 0 Suc Suc (newScheduler 4 (\<lambda>_. emptyProcessor 0))"

definition demoFewer :: Scheduler where
  "demoFewer =
     Scheduler_start 10 (\<lambda>i. 11 + i) (\<lambda>i. 11 + i) (newScheduler 3 (\<lambda>_. emptyProcessor 0))"

definition demoRestarted :: Scheduler where
  "demoRestarted =
     Scheduler_start 20 (\<lambda>i. 21 + i) (\<lambda>i. 21 + i)
       (projr (the (Scheduler_stop False (\<lambda>_. True) demoFewer)))"

section \<open>Predicates used by the properties\<close>

text \<open>Every coroutine of the runnable queue is in state EXEC.\<close>

definition queuedInExec :: "Processor \<Rightarrow> bool" where
  "queuedInExec p = list_all (\<lambda>c. getState c p = EXEC) (runnableCoQue p)"

text \<open>Every access to \<^verbatim>\<open>pendingTasks_\<close> in a log of events is made while the mutex
  is held; the first argument says whether it is held at the start of the log.\<close>

fun guardedFrom :: "bool \<Rightarrow> sync_event list \<Rightarrow> bool" where
  "guardedFrom held [] = True"
| "guardedFrom held (Lock # es) = guardedFrom True es"
| "guardedFrom held (Unlock # es) = guardedFrom False es"
| "guardedFrom held (PendingAppend # es) = (held \<and> guardedFrom held es)"
| "guardedFrom held (PendingSwap # es) = (held \<and> guardedFrom held es)"

text \<open>The idle list holds distinct coroutines that exist and are all in state TERM.\<close>

definition idleAllTerm :: "Processor \<Rightarrow> bool" where
  "idleAllTerm p =
     (distinct (idleCoQue p) \<and>
      list_all (\<lambda>c. c < nextCo p \<and> getState c p = State.TERM) (idleCoQue p))"

text \<open>The positions \<open>q < n\<close> of a sequence of submissions that fall to worker \<open>j\<close> of
  \<open>k\<close> when the round-robin index is \<open>i\<close> at the first submission.\<close>

definition hits :: "nat \<Rightarrow> nat \<Rightarrow> nat \<Rightarrow> nat \<Rightarrow> nat list" where
  "hits k i j n = filter (\<lambda>q. (i + q) mod k = j) [0..<n]"

text \<open>The number of \<^verbatim>\<open>addTask\<close> calls (either overload) among the calls of a turn, and
  the tasks given to \<^verbatim>\<open>addPendingTask\<close> during the turn.\<close>

fun localAdds :: "action list \<Rightarrow> nat" where
  "localAdds [] = 0"
| "localAdds (CallAddTaskCo co # as) = Suc (localAdds as)"
| "localAdds (CallAddTask c n # as) = Suc (localAdds as)"
| "localAdds (a # as) = localAdds as"

fun pendingAdds :: "action list \<Rightarrow> task list" where
  "pendingAdds [] = []"
| "pendingAdds (CallAddPendingTask c n # as) = (c, n) # pendingAdds as"
| "pendingAdds (a # as) = pendingAdds as"

text \<open>A Processor and a script used to exercise the properties on concrete inputs: the
  Processor is the one the constructor builds on thread 1. In the script the ``Wake''
  coroutine swaps out, the ``timerQue'' coroutine adds two tasks and swaps out, the first
  task requests stop and terminates, the second task terminates, and the epoll coroutine
  swaps out.\<close>

definition demoProcessor :: Processor where
  "demoProcessor = projr (Processor_ctor False 1)"

definition demoScript :: "turn list" where
  "demoScript =
     [\<lparr>actions = [], result = HOLD\<rparr>,
      \<lparr>actions = [CallAddTask (UserCb 7) ''job1'', CallAddTask (UserCb 8) ''job2''],
       result = HOLD\<rparr>,
      \<lparr>actions = [CallStop], result = State.TERM\<rparr>,
      \<lparr>actions = [], result = State.TERM\<rparr>,
      \<lparr>actions = [], result = HOLD\<rparr>]"

text \<open>
  A call of \<^verbatim>\<open>addTask(Coroutine::ptr)\<close> is admissible in a state when its coroutine
  exists and is not on the idle list; every other call is admissible. The calls of a turn,
  the turns of a script and a whole \<^verbatim>\<open>run\<close> are admissible when each call is admissible
  in the state in which it is made.
\<close>

fun admissible :: "action \<Rightarrow> Processor \<Rightarrow> bool" where
  "admissible (CallAddTaskCo co) p = (co < nextCo p \<and> co \<notin> set (idleCoQue p))"
| "admissible a p = True"

fun admissibleAll :: "action list \<Rightarrow> Processor \<Rightarrow> bool" where
  "admissibleAll [] p = True"
| "admissibleAll (a # as) p =
     (admissible a p \<and>
      (case perform a p of Inl e \<Rightarrow> True | Inr p1 \<Rightarrow> admissibleAll as p1))"

definition admissibleTurn :: "co_ptr \<Rightarrow> turn \<Rightarrow> Processor \<Rightarrow> bool" where
  "admissibleTurn co t p =
     admissibleAll (actions t) (setState co EXEC (p\<lparr>swapLog := swapLog p @ [co]\<rparr>))"

fun admissibleScript :: "co_ptr \<Rightarrow> turn list \<Rightarrow> Processor \<Rightarrow> bool" where
  "admissibleScript e [] p = True"
| "admissibleScript e (t # ts) p =
     (loopCond p \<longrightarrow>
        admissibleTurn (fst (pickCur e p)) t (snd (pickCur e p)) \<and>
        (case run_iter e t p of Inl er \<Rightarrow> True | Inr p1 \<Rightarrow> admissibleScript e ts p1))"

definition admissibleRun :: "turn list \<Rightarrow> Processor \<Rightarrow> bool" where
  "admissibleRun ts p =
     (case run_init p of
        (e, p1) \<Rightarrow>
          admissibleScript e ts p1 \<and>
          (case run_loop e ts p1 of
             Exit ts1 p2 \<Rightarrow> (case ts1 of [] \<Rightarrow> True | t # ts2 \<Rightarrow> admissibleTurn e t p2)
           | Unfinished p2 \<Rightarrow> True
           | Raised er \<Rightarrow> True))"

text \<open>The coroutines the loop can swap in exist: the epoll coroutine and those of the
  runnable queue.\<close>

definition knownCoroutines :: "co_ptr \<Rightarrow> Processor \<Rightarrow> bool" where
  "knownCoroutines e p = (e < nextCo p \<and> list_all (\<lambda>c. c < nextCo p) (runnableCoQue p))"

text \<open>The relation between the states before and after operations that keep the idle
  list in order: coroutines are only allocated, the idle list only loses members, and the
  runnable queue only gains existing coroutines at its tail.\<close>

definition grows :: "Processor \<Rightarrow> Processor \<Rightarrow> bool" where
  "grows p p' =
     (idleAllTerm p' \<and> nextCo p \<le> nextCo p' \<and> set (idleCoQue p') \<subseteq> set (idleCoQue p) \<and>
      (\<exists>added. runnableCoQue p' = runnableCoQue p @ added \<and>
               list_all (\<lambda>c. c < nextCo p') added))"

text \<open>Two more scripts for \<open>demoProcessor\<close>. In \<open>recycleScript\<close> the ``Wake'' coroutine
  adds a task and swaps out, ``timerQue'' swaps out, the task terminates, the epoll
  coroutine adds a second task (which recycles the coroutine of the first), resumes
  ``Wake'' and requests stop; the second task and ``Wake'' terminate, and the epoll
  coroutine swaps out. \<open>staleScript\<close> starts in the same way, but then the epoll coroutine
  resumes the coroutine of the terminated task before it adds the second task.\<close>

definition recycleScript :: "turn list" where
  "recycleScript =
     [\<lparr>actions = [CallAddTask (UserCb 7) ''job1''], result = HOLD\<rparr>,
      \<lparr>actions = [], result = HOLD\<rparr>,
      \<lparr>actions = [], result = State.TERM\<rparr>,
      \<lparr>actions = [CallAddTask (UserCb 8) ''job2'', CallAddTaskCo 0, CallStop], result = HOLD\<rparr>,
      \<lparr>actions = [], result = State.TERM\<rparr>,
      \<lparr>actions = [], result = State.TERM\<rparr>,
      \<lparr>actions = [], result = HOLD\<rparr>]"

definition staleScript :: "turn list" where
  "staleScript =
     [\<lparr>actions = [CallAddTask (UserCb 7) ''job1''], result = HOLD\<rparr>,
      \<lparr>actions = [], result = HOLD\<rparr>,
      \<lparr>actions = [], result = State.TERM\<rparr>,
      \<lparr>actions = [CallAddTaskCo 3, CallAddTask (UserCb 8) ''job2''], result = HOLD\<rparr>]"

text \<open>The coroutines that \<open>n\<close> successive calls of \<^verbatim>\<open>resetAndGetCo\<close> hand out: those of the
  idle list from its front, then newly allocated ones.\<close>

definition recycled :: "nat \<Rightarrow> Processor \<Rightarrow> co_ptr list" where
  "recycled n p =
     take n (idleCoQue p) @ [nextCo p ..< nextCo p + (n - length (idleCoQue p))]"

text \<open>The callbacks and names that a list of coroutines carries in a state.\<close>

definition tasksOf :: "Processor \<Rightarrow> co_ptr list \<Rightarrow> task list" where
  "tasksOf p cs = map (\<lambda>c. (cb (cos p c), name (cos p c))) cs"

text \<open>The state in which the loop of \<^verbatim>\<open>run\<close> is left on \<open>demoScript\<close> (two coroutines on
  the idle list), after three tasks have been submitted from other threads.\<close>

definition demoDrain :: Processor where
  "demoDrain =
     addPendingTask (UserCb 11) ''p3''
       (addPendingTask (UserCb 10) ''p2''
          (addPendingTask (UserCb 9) ''p1''
             (exitState (run_loop 2 demoScript (snd (run_init demoProcessor))))))"

section \<open>Auxiliary facts\<close>

lemmas proc_defs = addTask_def addTaskCb_def resetAndGetCo_def make_shared_def newCoroutine_def
  setState_def getState_def setName_def reset_def wakeupEpollCo_def isEpolling_def setEpolling_def

lemma queuedInExec_addTask: "queuedInExec p \<Longrightarrow> queuedInExec (addTask co p)"
  by (auto simp: queuedInExec_def list_all_iff proc_defs Let_def)

lemma queuedInExec_addTaskCb: "queuedInExec p \<Longrightarrow> addTaskCb c n p = Inr p' \<Longrightarrow> queuedInExec p'"
  by (auto simp: queuedInExec_def list_all_iff proc_defs Let_def split: if_splits sum.splits)

lemma queuedInExec_addTasks: "queuedInExec p \<Longrightarrow> addTasks ts p = Inr p' \<Longrightarrow> queuedInExec p'"
proof (induction ts arbitrary: p)
  case Nil
  then show ?case by simp
next
  case (Cons t ts)
  then show ?case
    by (auto split: sum.splits dest: queuedInExec_addTaskCb)
qed

lemma queuedInExec_drain:
  assumes "queuedInExec p" and "addPendingTasksIntoQueue p = Inr p'"
  shows "queuedInExec p'"
proof -
  let ?p2 = "p\<lparr>addingPendingTasks := True, pendingTasks := [],
               syncLog := syncLog p @ [Lock, PendingSwap, Unlock]\<rparr>"
  from assms(2) obtain p3 where a: "addTasks (pendingTasks p) ?p2 = Inr p3"
    and b: "p' = p3\<lparr>addingPendingTasks := False\<rparr>"
    by (auto simp: addPendingTasksIntoQueue_def Let_def split: sum.splits)
  from assms(1) have "queuedInExec ?p2"
    by (simp add: queuedInExec_def getState_def)
  from this a have "queuedInExec p3"
    by (rule queuedInExec_addTasks)
  with b show ?thesis
    by (simp add: queuedInExec_def getState_def)
qed

lemma ctor_result:
  "\<exists>p. Processor_ctor False tid = Inr p \<and> runnableCoQue p = [0, 1] \<and> load p = 2 \<and>
       cos p 0 = \<lparr>cb = WakeCb, name = ''Wake'', state = EXEC\<rparr> \<and>
       cos p (Suc 0) = \<lparr>cb = TimerQueCb, name = ''timerQue'', state = EXEC\<rparr>"
  by (simp add: Processor_ctor_def emptyProcessor_def proc_defs Let_def)

lemma TimerQueLambda_loops: "True \<notin> set obs \<Longrightarrow> TimerQueLambda obs = None"
  by (induction obs) auto

lemma WakeLambda_loops: "list_all (\<lambda>(stp, n). \<not> stp \<and> 0 \<le> n) obs \<Longrightarrow> WakeLambda obs = None"
  by (induction obs) (auto simp: consumeWakeUp_def)

lemma TimerQueLambda_first:
  "True \<notin> set pre \<Longrightarrow> TimerQueLambda (pre @ True # post) = Some StopSeen"
  by (induction pre) auto

lemma WakeLambda_first_stop:
  "list_all (\<lambda>(stp, n). \<not> stp \<and> 0 \<le> n) pre \<Longrightarrow>
     WakeLambda (pre @ (True, n) # post) = Some StopSeen"
  by (induction pre) (auto simp: consumeWakeUp_def)

lemma WakeLambda_first_failure:
  "list_all (\<lambda>(stp, n). \<not> stp \<and> 0 \<le> n) pre \<Longrightarrow> n < 0 \<Longrightarrow>
     WakeLambda (pre @ (False, n) # post) = Some ReadFailed"
  by (induction pre) (auto simp: consumeWakeUp_def)

subsection \<open>Counting the submissions of one worker\<close>

lemma hits_Suc_front_list:
  "hits k i j (Suc n) = (if i mod k = j then [0] else []) @ map Suc (hits k (Suc i) j n)"
proof -
  have "[0..<Suc n] = 0 # map Suc [0..<n]"
    by (simp add: upt_conv_Cons map_Suc_upt del: upt_Suc)
  then show ?thesis
    by (simp add: hits_def filter_map comp_def del: upt_Suc)
qed

lemma hits_Suc_front:
  "length (hits k i j (Suc n)) = (if i mod k = j then 1 else 0) + length (hits k (Suc i) j n)"
  by (simp add: hits_Suc_front_list)

lemma hits_Suc_back:
  "length (hits k i j (Suc n)) = length (hits k i j n) + (if (i + n) mod k = j then 1 else 0)"
  by (simp add: hits_def)

lemma hits_shift:
  assumes "0 < k"
  shows "length (hits k (Suc i) j k) = length (hits k i j k)"
proof -
  from assms obtain m where k: "k = Suc m" by (cases k) auto
  have "(Suc i + m) mod k = i mod k"
    unfolding k by (metis add_Suc_right add_Suc mod_add_self2)
  then show ?thesis
    using hits_Suc_back [of k "Suc i" j m] hits_Suc_front [of k i j m] by (simp add: k)
qed

lemma hits_zero:
  assumes "j < k"
  shows "length (hits k 0 j k) = 1"
proof -
  have "filter (\<lambda>q. q mod k = j) [0..<k] = filter (\<lambda>q. q = j) [0..<k]"
    by (rule filter_cong) auto
  also have "\<dots> = [j]"
    using assms by (induction k) (auto simp: less_Suc_eq filter_empty_conv)
  finally show ?thesis by (simp add: hits_def)
qed

lemma hits_block: "j < k \<Longrightarrow> length (hits k i j k) = 1"
  by (induction i) (auto simp: hits_zero hits_shift)

lemma hits_add:
  "length (hits k i j (a + b)) = length (hits k i j a) + length (hits k (i + a) j b)"
proof (induction b)
  case 0
  then show ?case by (simp add: hits_def)
next
  case (Suc b)
  then show ?case
    using hits_Suc_back [of k i j "a + b"] hits_Suc_back [of k "i + a" j b]
    by (simp add: add.assoc)
qed

lemma hits_blocks: "j < k \<Longrightarrow> length (hits k i j (k * b)) = b"
proof (induction b)
  case 0
  then show ?case by (simp add: hits_def)
next
  case (Suc b)
  then show ?case
    using hits_add [of k i j "k * b" k] by (simp add: hits_block add.commute)
qed

lemma hits_dvd: "j < k \<Longrightarrow> k dvd n \<Longrightarrow> length (hits k i j n) = n div k"
  by (auto simp: hits_blocks elim!: dvdE)

lemma hits_mod: "hits k (i mod k) j n = hits k i j n"
  by (simp add: hits_def mod_add_left_eq)

lemma nth_hits_Cons:
  "map (nth (t # ts)) (hits k i j (Suc (length ts))) =
     (if i mod k = j then [t] else []) @ map (nth ts) (hits k (Suc i mod k) j (length ts))"
  by (simp add: hits_Suc_front_list hits_mod comp_def)

lemma hits_subseq: "subseq (map (nth ts) (hits k i j (length ts))) ts"
proof (induction ts arbitrary: i)
  case Nil
  then show ?case by (simp add: hits_def)
next
  case (Cons t ts)
  have "subseq (map (nth ts) (hits k (Suc i mod k) j (length ts))) ts"
    by (rule Cons.IH)
  then show ?case
    by (auto simp: nth_hits_Cons intro: list_emb_Cons)
qed

subsection \<open>Round-robin dispatch\<close>

lemma pick_round_robin:
  "workProcVec s \<noteq> [] \<Longrightarrow> i < length (workProcVec s) \<Longrightarrow>
   pickOneProcesser i s = Inr (Some (workProcVec s ! i), Suc i mod length (workProcVec s))"
  by (simp add: pickOneProcesser_def)

lemma addTask_round_robin:
  "workProcVec s \<noteq> [] \<Longrightarrow> i < length (workProcVec s) \<Longrightarrow>
   Scheduler_addTask i c n s =
     Inr (Suc i mod length (workProcVec s),
          s\<lparr>procs := (procs s)(workProcVec s ! i :=
                       addPendingTask c n (procs s (workProcVec s ! i)))\<rparr>)"
  by (simp add: Scheduler_addTask_def pick_round_robin)

lemma pick_main:
  "workProcVec s = [] \<Longrightarrow> mainProc s = Some m \<Longrightarrow> pickOneProcesser i s = Inr (Some m, i)"
  by (simp add: pickOneProcesser_def)

lemma onPicked_round_robin:
  "workProcVec s \<noteq> [] \<Longrightarrow> i < length (workProcVec s) \<Longrightarrow>
   onPicked i s f =
     Inr (workProcVec s ! i, Suc i mod length (workProcVec s),
          s\<lparr>procs := (procs s)(workProcVec s ! i := f (procs s (workProcVec s ! i)))\<rparr>)"
  by (simp add: onPicked_def pick_round_robin)

lemma timers_round_robin:
  assumes "workProcVec s \<noteq> []" and "i < length (workProcVec s)"
  shows "runAt i w pl s =
           Inr (workProcVec s ! i, Suc i mod length (workProcVec s),
                s\<lparr>procs := (procs s)(workProcVec s ! i :=
                             addTimer pl w 0 (procs s (workProcVec s ! i)))\<rparr>)"
    and "runAfter i now d pl s =
           Inr (workProcVec s ! i, Suc i mod length (workProcVec s),
                s\<lparr>procs := (procs s)(workProcVec s ! i :=
                             addTimer pl (now + d) 0 (procs s (workProcVec s ! i)))\<rparr>)"
    and "runEvery i now iv pl s =
           Inr (workProcVec s ! i, Suc i mod length (workProcVec s),
                s\<lparr>procs := (procs s)(workProcVec s ! i :=
                             addTimer pl (now + iv) iv (procs s (workProcVec s ! i)))\<rparr>)"
  using assms by (simp_all add: runAt_def runAfter_def runEvery_def onPicked_round_robin)

lemma pending_addPendingTask: "pendingTasks (addPendingTask c n p) = pendingTasks p @ [(c, n)]"
  by (simp add: addPendingTask_def wakeupEpollCo_def)

text \<open>As long as the index is below the number of workers, a sequence of submissions is
  dealt out to the workers cyclically, in the order of submission.\<close>

lemma submitAll_round_robin:
  assumes "workProcVec s = ws" and "ws \<noteq> []" and "distinct ws" and "i < length ws"
  shows "\<exists>s'. submitAll i ts s = Inr ((i + length ts) mod length ws, s') \<and>
           workProcVec s' = ws \<and> mainProc s' = mainProc s \<and>
           (\<forall>j<length ws. pendingTasks (procs s' (ws ! j)) =
               pendingTasks (procs s (ws ! j)) @
               map (nth ts) (hits (length ws) i j (length ts))) \<and>
           (\<forall>m. m \<notin> set ws \<longrightarrow> procs s' m = procs s m)"
  using assms
proof (induction ts arbitrary: s i)
  case Nil
  then show ?case by (simp add: hits_def)
next
  case (Cons t ts)
  let ?k = "length ws"
  let ?s1 = "s\<lparr>procs := (procs s)(ws ! i :=
                           addPendingTask (fst t) (snd t) (procs s (ws ! i)))\<rparr>"
  have step: "Scheduler_addTask i (fst t) (snd t) s = Inr (Suc i mod ?k, ?s1)"
    using Cons.prems addTask_round_robin [of s i "fst t" "snd t"] by simp
  have k: "0 < ?k" using Cons.prems by simp
  have "workProcVec ?s1 = ws" "Suc i mod ?k < ?k"
    using Cons.prems k by simp_all
  from Cons.IH [OF this(1) Cons.prems(2,3) this(2)]
  obtain s' where s': "submitAll (Suc i mod ?k) ts ?s1 = Inr ((Suc i mod ?k + length ts) mod ?k, s')"
      "workProcVec s' = ws" "mainProc s' = mainProc ?s1"
      "\<forall>j<?k. pendingTasks (procs s' (ws ! j)) =
               pendingTasks (procs ?s1 (ws ! j)) @
               map (nth ts) (hits ?k (Suc i mod ?k) j (length ts))"
      "\<forall>m. m \<notin> set ws \<longrightarrow> procs s' m = procs ?s1 m"
    by blast
  have idx: "(Suc i mod ?k + length ts) mod ?k = (i + length (t # ts)) mod ?k"
    by (simp add: mod_add_left_eq mod_Suc_eq)
  have pend: "pendingTasks (procs s' (ws ! j)) =
               pendingTasks (procs s (ws ! j)) @
               map (nth (t # ts)) (hits ?k i j (length (t # ts)))" if j: "j < ?k" for j
  proof -
    have eq: "(ws ! j = ws ! i) = (j = i)"
      using Cons.prems j by (simp add: nth_eq_iff_index_eq)
    have "pendingTasks (procs ?s1 (ws ! j)) =
            pendingTasks (procs s (ws ! j)) @ (if i mod ?k = j then [t] else [])"
      using Cons.prems eq by (auto simp: pending_addPendingTask)
    with s'(4) j show ?thesis
      by (simp add: nth_hits_Cons)
  qed
  have other: "procs s' m = procs s m" if "m \<notin> set ws" for m
    using s'(5) that Cons.prems by (auto simp: nth_mem)
  show ?case
    using step s'(1,2,3) idx pend other by simp
qed

subsection \<open>Stopping the Scheduler\<close>

lemma stop_Processor_stop: "stop (Processor_stop p)"
  by (simp add: Processor_stop_def Let_def wakeupEpollCo_def)

lemma stopAll_stop: "w \<in> set ws \<or> stop (ps w) \<Longrightarrow> stop (stopAll ws ps w)"
  by (induction ws arbitrary: ps) (auto simp: stop_Processor_stop)

lemma requestStop_fields:
  "running (requestStop m s) = False" "mainProc (requestStop m s) = None"
  "workProcVec (requestStop m s) = workProcVec s" "quit (requestStop m s) = quit s"
  "joinLog (requestStop m s) = joinLog s" "detached (requestStop m s) = detached s"
  "joinTargets (requestStop m s) = joinTargets s"
  "threadJoinable (requestStop m s) = threadJoinable s"
  "workThreadVec (requestStop m s) = workThreadVec s"
  "stop (procs (requestStop m s) m)"
  "\<forall>w\<in>set (workProcVec s). stop (procs (requestStop m s) w)"
  by (simp_all add: requestStop_def Let_def joinTargets_def stopAll_stop stop_Processor_stop)

lemma joinEach_eq:
  "joinEach who ended ts s =
     (if list_all ended ts then Some (s\<lparr>joinLog := joinLog s @ map (Pair who) ts\<rparr>) else None)"
  by (induction ts arbitrary: s) auto

lemma joinThread_eq:
  "joinThread who ended s =
     (if list_all ended (joinTargets s)
      then Some (s\<lparr>joinLog := joinLog s @ map (Pair who) (joinTargets s),
                   threadJoinable := False, quit := True\<rparr>)
      else None)"
  by (simp add: joinThread_def joinEach_eq)

lemma joinTargets_detached: "joinTargets (s\<lparr>detached := d\<rparr>) = joinTargets s"
  by (simp add: joinTargets_def)

subsection \<open>The Schedulers of the examples\<close>

lemma demoWorkers_eq:
  "demoWorkers =
     \<lparr>running = True, quit = False, threadNum = 4, mainProc = Some 0,
      workProcVec = [1, 2, 3], workThreadVec = [1, 2, 3], threadJoinable = False,
      procs = \<lambda>_. emptyProcessor 0, joinLog = [], detached = 0\<rparr>"
  by (simp add: demoWorkers_def Scheduler_start_def newScheduler_def upt_rec)

lemma demoFewer_eq:
  "demoFewer =
     \<lparr>running = True, quit = False, threadNum = 3, mainProc = Some 10,
      workProcVec = [11, 12], workThreadVec = [11, 12], threadJoinable = False,
      procs = \<lambda>_. emptyProcessor 0, joinLog = [], detached = 0\<rparr>"
  by (simp add: demoFewer_def Scheduler_start_def newScheduler_def upt_rec)

lemma demoRestarted_eq:
  "demoRestarted =
     \<lparr>running = True, quit = True, threadNum = 3, mainProc = Some 20,
      workProcVec = [11, 12, 21, 22], workThreadVec = [11, 12, 21, 22],
      threadJoinable = False,
      procs = (\<lambda>_. emptyProcessor 0)
        (10 := Processor_stop (emptyProcessor 0), 11 := Processor_stop (emptyProcessor 0),
         12 := Processor_stop (emptyProcessor 0)),
      joinLog = [(Caller, WorkThread 11), (Caller, WorkThread 12)], detached = 0\<rparr>"
  by (simp add: demoRestarted_def demoFewer_eq Scheduler_stop_def requestStop_def
      joinThread_eq joinTargets_def Scheduler_start_def Let_def upt_rec)

subsection \<open>The effect of the operations on the fields of a Processor\<close>

lemma addTask_fields:
  "load (addTask co p) = load p + 1"
  "runnableCoQue (addTask co p) = runnableCoQue p @ [co]"
  "idleCoQue (addTask co p) = idleCoQue p"
  "pendingTasks (addTask co p) = pendingTasks p"
  "swapLog (addTask co p) = swapLog p"
  "stop (addTask co p) = stop p"
  "nextCo (addTask co p) = nextCo p"
  "cos (addTask co p) = (cos p)(co := (cos p co)\<lparr>state := EXEC\<rparr>)"
  by (simp_all add: proc_defs Let_def)

lemma resetAndGetCo_fields:
  assumes "resetAndGetCo c n p = Inr (co, p')"
  shows "load p' = load p" "runnableCoQue p' = runnableCoQue p" "pendingTasks p' = pendingTasks p"
    "swapLog p' = swapLog p" "stop p' = stop p" "\<forall>x. x \<noteq> co \<longrightarrow> cos p' x = cos p x"
    "idleCoQue p = [] \<longrightarrow> co = nextCo p \<and> idleCoQue p' = [] \<and> nextCo p' = Suc (nextCo p)"
    "idleCoQue p \<noteq> [] \<longrightarrow> co = hd (idleCoQue p) \<and> idleCoQue p' = tl (idleCoQue p) \<and> nextCo p' = nextCo p"
  using assms by (auto simp: proc_defs Let_def split: if_splits sum.splits)

lemma addTaskCb_fields:
  assumes "addTaskCb c n p = Inr p'"
  shows "load p' = load p + 1" "pendingTasks p' = pendingTasks p" "swapLog p' = swapLog p"
    "stop p' = stop p" "\<exists>co. runnableCoQue p' = runnableCoQue p @ [co]"
proof -
  from assms obtain co p1 where r: "resetAndGetCo c n p = Inr (co, p1)" and p': "p' = addTask co p1"
    by (auto simp: addTaskCb_def split: sum.splits)
  show "load p' = load p + 1" "pendingTasks p' = pendingTasks p" "swapLog p' = swapLog p"
    "stop p' = stop p" "\<exists>co. runnableCoQue p' = runnableCoQue p @ [co]"
    using resetAndGetCo_fields [OF r] by (simp_all add: p' addTask_fields)
qed

lemma addTasks_fields:
  "addTasks ts p = Inr p' \<Longrightarrow>
     load p' = load p + of_nat (length ts) \<and> pendingTasks p' = pendingTasks p \<and>
     swapLog p' = swapLog p \<and> stop p' = stop p \<and>
     (\<exists>added. runnableCoQue p' = runnableCoQue p @ added \<and> length added = length ts)"
proof (induction ts arbitrary: p)
  case Nil
  then show ?case by simp
next
  case (Cons t ts)
  from Cons.prems obtain p1 where a: "addTaskCb (fst t) (snd t) p = Inr p1"
    and b: "addTasks ts p1 = Inr p'"
    by (auto split: sum.splits)
  from addTaskCb_fields(5) [OF a] obtain co where co: "runnableCoQue p1 = runnableCoQue p @ [co]" ..
  from Cons.IH [OF b] obtain added where
    "runnableCoQue p' = runnableCoQue p1 @ added" "length added = length ts"
    by blast
  then have "runnableCoQue p' = runnableCoQue p @ (co # added) \<and> length (co # added) = length (t # ts)"
    by (simp add: co)
  then have "\<exists>added. runnableCoQue p' = runnableCoQue p @ added \<and> length added = length (t # ts)"
    by blast
  then show ?case
    using Cons.IH [OF b] addTaskCb_fields(1-4) [OF a] by simp
qed

lemma drain_fields:
  assumes "addPendingTasksIntoQueue p = Inr p'"
  shows "load p' = load p + of_nat (length (pendingTasks p))" "pendingTasks p' = []"
     "swapLog p' = swapLog p" "stop p' = stop p"
     "\<exists>added. runnableCoQue p' = runnableCoQue p @ added \<and> length added = length (pendingTasks p)"
proof -
  let ?p2 = "p\<lparr>addingPendingTasks := True, pendingTasks := [],
               syncLog := syncLog p @ [Lock, PendingSwap, Unlock]\<rparr>"
  from assms obtain p3 where a: "addTasks (pendingTasks p) ?p2 = Inr p3"
    and b: "p' = p3\<lparr>addingPendingTasks := False\<rparr>"
    by (auto simp: addPendingTasksIntoQueue_def Let_def split: sum.splits)
  show "load p' = load p + of_nat (length (pendingTasks p))" "pendingTasks p' = []"
     "swapLog p' = swapLog p" "stop p' = stop p"
     "\<exists>added. runnableCoQue p' = runnableCoQue p @ added \<and> length added = length (pendingTasks p)"
    using addTasks_fields [OF a] by (simp_all add: b)
qed

lemma perform_fields:
  assumes "perform a p = Inr p'"
  shows "load p' = load p + of_nat (localAdds [a])"
    "pendingTasks p' = pendingTasks p @ pendingAdds [a]"
    "swapLog p' = swapLog p"
    "\<exists>added. runnableCoQue p' = runnableCoQue p @ added"
    "stop p \<longrightarrow> stop p'"
  using assms
  by (cases a; auto simp: addTask_fields addPendingTask_def wakeupEpollCo_def Processor_stop_def
      isEpolling_def setEpolling_def updateEvent_def removeEvent_def Let_def
      CoEpoll_updateEvent_def CoEpoll_removeEvent_def
      dest: addTaskCb_fields)+

lemma localAdds_Cons: "localAdds (a # as) = localAdds [a] + localAdds as"
  by (cases a) auto

lemma pendingAdds_Cons: "pendingAdds (a # as) = pendingAdds [a] @ pendingAdds as"
  by (cases a) auto

lemma performAll_fields:
  "performAll as p = Inr p' \<Longrightarrow>
     load p' = load p + of_nat (localAdds as) \<and>
     pendingTasks p' = pendingTasks p @ pendingAdds as \<and>
     swapLog p' = swapLog p \<and>
     (\<exists>added. runnableCoQue p' = runnableCoQue p @ added) \<and>
     (stop p \<longrightarrow> stop p')"
proof (induction as arbitrary: p)
  case Nil
  then show ?case by simp
next
  case (Cons a as)
  from Cons.prems obtain p1 where a: "perform a p = Inr p1" and b: "performAll as p1 = Inr p'"
    by (auto split: sum.splits)
  from perform_fields(4) [OF a] obtain x where x: "runnableCoQue p1 = runnableCoQue p @ x" ..
  from Cons.IH [OF b] obtain y where y: "runnableCoQue p' = runnableCoQue p1 @ y" by blast
  have q: "\<exists>added. runnableCoQue p' = runnableCoQue p @ added"
    using x y by simp
  show ?case
    using Cons.IH [OF b] perform_fields(1,2,3,5) [OF a] q
      localAdds_Cons [of a as] pendingAdds_Cons [of a as]
    by simp
qed

lemma setState_fields:
  "load (setState co st p) = load p" "runnableCoQue (setState co st p) = runnableCoQue p"
  "idleCoQue (setState co st p) = idleCoQue p" "pendingTasks (setState co st p) = pendingTasks p"
  "swapLog (setState co st p) = swapLog p" "stop (setState co st p) = stop p"
  "nextCo (setState co st p) = nextCo p" "getState co (setState co st p) = st"
  "x \<noteq> co \<Longrightarrow> getState x (setState co st p) = getState x p"
  by (simp_all add: setState_def getState_def)

lemma swapIn_fields:
  assumes "swapIn co t p = Inr p'"
  shows "load p' = load p + of_nat (localAdds (actions t))"
    "pendingTasks p' = pendingTasks p @ pendingAdds (actions t)"
    "swapLog p' = swapLog p @ [co]"
    "\<exists>added. runnableCoQue p' = runnableCoQue p @ added"
    "stop p \<longrightarrow> stop p'"
    "getState co p' = result t"
    "getState co p \<noteq> State.TERM" "getState co p \<noteq> EXCEPT"
proof -
  let ?p0 = "setState co EXEC (p\<lparr>swapLog := swapLog p @ [co]\<rparr>)"
  from assms obtain p1 where a: "performAll (actions t) ?p0 = Inr p1"
    and b: "p' = setState co (result t) p1"
    and c: "getState co p \<noteq> State.TERM" "getState co p \<noteq> EXCEPT"
    by (auto simp: swapIn_def CRITICAL_def split: if_splits sum.splits)
  show "load p' = load p + of_nat (localAdds (actions t))"
    "pendingTasks p' = pendingTasks p @ pendingAdds (actions t)"
    "swapLog p' = swapLog p @ [co]"
    "\<exists>added. runnableCoQue p' = runnableCoQue p @ added"
    "stop p \<longrightarrow> stop p'"
    "getState co p' = result t"
    using performAll_fields [OF a] by (simp_all add: b setState_fields)
  show "getState co p \<noteq> State.TERM" "getState co p \<noteq> EXCEPT" by (rule c)+
qed

lemma retire_fields:
  "load (retire cur p) = load p - (if getState cur p = State.TERM then 1 else 0)"
  "runnableCoQue (retire cur p) = runnableCoQue p"
  "pendingTasks (retire cur p) = pendingTasks p"
  "swapLog (retire cur p) = swapLog p"
  "stop (retire cur p) = stop p"
  "idleCoQue (retire cur p) =
     (if getState cur p = State.TERM then idleCoQue p @ [cur] else idleCoQue p)"
  by (simp_all add: retire_def)

lemma pickCur_fields:
  "fst (pickCur e p) = (if runnableCoQue p = [] then e else hd (runnableCoQue p))"
  "runnableCoQue (snd (pickCur e p)) = tl (runnableCoQue p)"
  "load (snd (pickCur e p)) = load p"
  "pendingTasks (snd (pickCur e p)) = pendingTasks p"
  "swapLog (snd (pickCur e p)) = swapLog p"
  "stop (snd (pickCur e p)) = stop p"
  "runnableCoQue p = [] \<longrightarrow> epolling (snd (pickCur e p))"
  by (simp_all add: pickCur_def setEpolling_def)

lemma run_iter_fields:
  assumes "run_iter e t p = Inr p'"
  shows "load p' = load p + of_nat (localAdds (actions t) + length (pendingAdds (actions t))
                                       + length (pendingTasks p))
                   - (if result t = State.TERM then 1 else 0)"
    "swapLog p' = swapLog p @ [if runnableCoQue p = [] then e else hd (runnableCoQue p)]"
    "pendingTasks p' = []"
    "\<exists>added. runnableCoQue p' = tl (runnableCoQue p) @ added"
    "stop p \<longrightarrow> stop p'"
proof -
  let ?cur = "fst (pickCur e p)" and ?p1 = "snd (pickCur e p)"
  from assms obtain p2 where a: "swapIn ?cur t ?p1 = Inr p2"
    and b: "addPendingTasksIntoQueue (retire ?cur p2) = Inr p'"
    by (auto simp: run_iter_def split: prod.splits sum.splits)
  note s = swapIn_fields [OF a] and d = drain_fields [OF b]
  show "load p' = load p + of_nat (localAdds (actions t) + length (pendingAdds (actions t))
                                       + length (pendingTasks p))
                   - (if result t = State.TERM then 1 else 0)"
    using s(1,2,6) d(1) by (simp add: retire_fields pickCur_fields)
  show "swapLog p' = swapLog p @ [if runnableCoQue p = [] then e else hd (runnableCoQue p)]"
    using s(3) d(3) by (simp add: retire_fields pickCur_fields)
  show "pendingTasks p' = []" by (rule d(2))
  from s(4) obtain x where "runnableCoQue p2 = tl (runnableCoQue p) @ x"
    by (auto simp: pickCur_fields)
  moreover from d(5) obtain y where "runnableCoQue p' = runnableCoQue p2 @ y"
    by (auto simp: retire_fields)
  ultimately show "\<exists>added. runnableCoQue p' = tl (runnableCoQue p) @ added"
    by simp
  show "stop p \<longrightarrow> stop p'"
    using s(5) d(4) by (simp add: retire_fields pickCur_fields)
qed

lemma run_iter_log_queue:
  assumes "run_iter e t p = Inr p'"
  shows "\<exists>rest. swapLog p' @ runnableCoQue p' = swapLog p @ runnableCoQue p @ rest"
proof -
  from run_iter_fields(4) [OF assms] obtain added
    where q: "runnableCoQue p' = tl (runnableCoQue p) @ added" ..
  show ?thesis
  proof (cases "runnableCoQue p")
    case Nil
    then show ?thesis
      using run_iter_fields(2) [OF assms] q by simp
  next
    case (Cons h tl)
    then show ?thesis
      using run_iter_fields(2) [OF assms] q by simp
  qed
qed

lemma run_loop_log_queue:
  "run_loop e ts p = Exit ts' p' \<or> run_loop e ts p = Unfinished p' \<Longrightarrow>
     \<exists>rest. swapLog p' @ runnableCoQue p' = swapLog p @ runnableCoQue p @ rest"
proof (induction ts arbitrary: p)
  case Nil
  then show ?case by (auto split: if_splits)
next
  case (Cons t ts)
  show ?case
  proof (cases "loopCond p")
    case False
    with Cons.prems show ?thesis by auto
  next
    case True
    with Cons.prems obtain p1 where a: "run_iter e t p = Inr p1"
      and b: "run_loop e ts p1 = Exit ts' p' \<or> run_loop e ts p1 = Unfinished p'"
      by (auto split: sum.splits)
    from run_iter_log_queue [OF a] obtain r1
      where "swapLog p1 @ runnableCoQue p1 = swapLog p @ runnableCoQue p @ r1" ..
    moreover from Cons.IH [OF b] obtain r2
      where "swapLog p' @ runnableCoQue p' = swapLog p1 @ runnableCoQue p1 @ r2" ..
    ultimately have "swapLog p' @ runnableCoQue p' = swapLog p @ runnableCoQue p @ (r1 @ r2)"
      by (metis append.assoc)
    then show ?thesis ..
  qed
qed

lemma run_loop_Exit:
  "run_loop e ts p = Exit ts' p' \<Longrightarrow>
     stop p' \<and> runnableCoQue p' = [] \<and>
     (\<exists>used. ts = used @ ts' \<and> length (swapLog p') = length (swapLog p) + length used)"
proof (induction ts arbitrary: p)
  case Nil
  then show ?case by (auto simp: loopCond_def split: if_splits)
next
  case (Cons t ts)
  show ?case
  proof (cases "loopCond p")
    case False
    with Cons.prems show ?thesis by (auto simp: loopCond_def)
  next
    case True
    with Cons.prems obtain p1 where a: "run_iter e t p = Inr p1"
      and b: "run_loop e ts p1 = Exit ts' p'"
      by (auto split: sum.splits)
    from Cons.IH [OF b] obtain used where u: "ts = used @ ts'"
        "length (swapLog p') = length (swapLog p1) + length used"
      and st: "stop p'" "runnableCoQue p' = []"
      by blast
    have "t # ts = (t # used) @ ts' \<and>
          length (swapLog p') = length (swapLog p) + length (t # used)"
      using u run_iter_fields(2) [OF a] by simp
    then show ?thesis using st by blast
  qed
qed

lemma run_loop_Unfinished:
  "run_loop e ts p = Unfinished p' \<Longrightarrow>
     length (swapLog p') = length (swapLog p) + length ts"
proof (induction ts arbitrary: p)
  case Nil
  then show ?case by (auto split: if_splits)
next
  case (Cons t ts)
  then show ?case
    by (auto split: if_splits sum.splits dest: run_iter_fields(2))
qed

lemma run_loop_executes_queue:
  assumes "run_loop e ts p = Exit ts' p' \<or>
           (run_loop e ts p = Unfinished p' \<and> length (runnableCoQue p) \<le> length ts)"
  shows "prefix (swapLog p @ runnableCoQue p) (swapLog p')"
proof -
  from assms run_loop_log_queue [of e ts p ts' p'] obtain rest
    where r: "swapLog p' @ runnableCoQue p' = swapLog p @ runnableCoQue p @ rest"
    by blast
  from assms show ?thesis
  proof
    assume "run_loop e ts p = Exit ts' p'"
    then have "runnableCoQue p' = []"
      by (simp add: run_loop_Exit)
    with r show ?thesis by (simp add: prefix_def)
  next
    assume a: "run_loop e ts p = Unfinished p' \<and> length (runnableCoQue p) \<le> length ts"
    then have "length (swapLog p @ runnableCoQue p) \<le> length (swapLog p')"
      using run_loop_Unfinished [of e ts p p'] by simp
    moreover have "prefix (swapLog p @ runnableCoQue p) (swapLog p' @ runnableCoQue p')"
      using r by (simp add: prefix_def)
    moreover have "prefix (swapLog p') (swapLog p' @ runnableCoQue p')"
      by simp
    ultimately show ?thesis
      by (rule prefix_length_prefix [rotated 2])
  qed
qed

lemma run_iter_quiet:
  assumes "runnableCoQue p = c # q" and "actions t = []" and "pendingTasks p = []"
    and "getState c p \<noteq> State.TERM" and "getState c p \<noteq> EXCEPT"
  shows "\<exists>p'. run_iter e t p = Inr p' \<and> runnableCoQue p' = q \<and> pendingTasks p' = [] \<and>
           stop p' = stop p \<and> swapLog p' = swapLog p @ [c] \<and>
           (\<forall>x. x \<noteq> c \<longrightarrow> getState x p' = getState x p)"
  using assms
  by (simp add: run_iter_def pickCur_def swapIn_def retire_def addPendingTasksIntoQueue_def
      setState_def getState_def Let_def)

lemma run_loop_quiet:
  assumes "stop p" and "pendingTasks p = []" and "distinct (runnableCoQue p)"
    and "\<forall>c\<in>set (runnableCoQue p). getState c p \<noteq> State.TERM \<and> getState c p \<noteq> EXCEPT"
    and "length (runnableCoQue p) \<le> length ts"
    and "\<forall>t\<in>set (take (length (runnableCoQue p)) ts). actions t = []"
  shows "\<exists>p'. run_loop e ts p = Exit (drop (length (runnableCoQue p)) ts) p' \<and>
           swapLog p' = swapLog p @ runnableCoQue p"
  using assms
proof (induction ts arbitrary: p)
  case Nil
  then show ?case by (simp add: loopCond_def)
next
  case (Cons t ts)
  show ?case
  proof (cases "runnableCoQue p")
    case Nil
    with Cons.prems show ?thesis by (simp add: loopCond_def)
  next
    case (Cons c q)
    with Cons.prems have "actions t = []" "getState c p \<noteq> State.TERM" "getState c p \<noteq> EXCEPT"
      by simp_all
    from run_iter_quiet [OF Cons this(1) Cons.prems(2) this(2,3), of e]
    obtain p1 where p1: "run_iter e t p = Inr p1" "runnableCoQue p1 = q" "pendingTasks p1 = []"
      "stop p1 = stop p" "swapLog p1 = swapLog p @ [c]"
      "\<forall>x. x \<noteq> c \<longrightarrow> getState x p1 = getState x p"
      by blast
    have "\<exists>p'. run_loop e ts p1 = Exit (drop (length (runnableCoQue p1)) ts) p' \<and>
           swapLog p' = swapLog p1 @ runnableCoQue p1"
    proof (rule Cons.IH)
      show "stop p1" using p1 Cons.prems by simp
      show "pendingTasks p1 = []" by (rule p1(3))
      show "distinct (runnableCoQue p1)" using p1 Cons.prems Cons by simp
      show "\<forall>c\<in>set (runnableCoQue p1). getState c p1 \<noteq> State.TERM \<and> getState c p1 \<noteq> EXCEPT"
        using p1 Cons.prems Cons by auto
      show "length (runnableCoQue p1) \<le> length ts" using p1 Cons.prems Cons by simp
      show "\<forall>t\<in>set (take (length (runnableCoQue p1)) ts). actions t = []"
        using p1 Cons.prems Cons by simp
    qed
    then show ?thesis
      using p1 Cons by (simp add: loopCond_def)
  qed
qed

lemmas eval_defs = Processor_ctor_def emptyProcessor_def proc_defs Let_def run_def run_init_def
  assertInProcThread_def isInProcThread_def loopCond_def run_iter_def pickCur_def swapIn_def
  retire_def addPendingTasksIntoQueue_def Processor_stop_def CRITICAL_def

lemma run_loop_load:
  "run_loop e ts p = Exit ts' p' \<Longrightarrow>
     \<exists>used. ts = used @ ts' \<and>
       load p' = load p
         + of_nat ((if used = [] then 0 else length (pendingTasks p)) +
                   sum_list (map (\<lambda>u. localAdds (actions u) + length (pendingAdds (actions u))) used))
         - of_nat (length (filter (\<lambda>u. result u = State.TERM) used))"
proof (induction ts arbitrary: p)
  case Nil
  then show ?case by (auto split: if_splits)
next
  case (Cons t ts)
  show ?case
  proof (cases "loopCond p")
    case False
    with Cons.prems show ?thesis by auto
  next
    case True
    with Cons.prems obtain p1 where a: "run_iter e t p = Inr p1"
      and b: "run_loop e ts p1 = Exit ts' p'"
      by (auto split: sum.splits)
    from Cons.IH [OF b] obtain used where u: "ts = used @ ts'"
      "load p' = load p1
         + of_nat ((if used = [] then 0 else length (pendingTasks p1)) +
                   sum_list (map (\<lambda>u. localAdds (actions u) + length (pendingAdds (actions u))) used))
         - of_nat (length (filter (\<lambda>u. result u = State.TERM) used))"
      by blast
    let ?S = "sum_list (map (\<lambda>u. localAdds (actions u) + length (pendingAdds (actions u))) used)"
    let ?T = "length (filter (\<lambda>u. result u = State.TERM) used)"
    let ?A = "localAdds (actions t) + length (pendingAdds (actions t))"
    have l1: "load p1 = load p + of_nat (?A + length (pendingTasks p))
                - (if result t = State.TERM then 1 else 0)"
      by (rule run_iter_fields(1) [OF a])
    have l2: "load p' = load p1 + of_nat ?S - of_nat ?T"
      using u(2) run_iter_fields(3) [OF a] by simp
    have "load p' = load p + of_nat (length (pendingTasks p) + (?A + ?S))
                - of_nat ((if result t = State.TERM then 1 else 0) + ?T)"
      unfolding l2 l1 by (cases "result t = State.TERM") (simp_all add: algebra_simps)
    then have "t # ts = (t # used) @ ts' \<and>
       load p' = load p
         + of_nat ((if t # used = [] then 0 else length (pendingTasks p)) +
                   sum_list (map (\<lambda>u. localAdds (actions u) + length (pendingAdds (actions u))) (t # used)))
         - of_nat (length (filter (\<lambda>u. result u = State.TERM) (t # used)))"
      using u(1) by (cases "result t = State.TERM") (simp_all add: add.assoc)
    then show ?thesis by blast
  qed
qed

lemma run_load:
  assumes "run tid ts p = Some (Inr pf)"
  shows "\<exists>used u rest. ts = used @ u # rest \<and>
         load pf = load p
           + of_nat ((if used = [] then 0 else length (pendingTasks p)) +
                     sum_list (map (\<lambda>u. localAdds (actions u) + length (pendingAdds (actions u)))
                                used) +
                     localAdds (actions u))
           - of_nat (length (filter (\<lambda>u. result u = State.TERM) used))"
proof -
  let ?e = "fst (run_init p)" and ?p1 = "snd (run_init p)"
  from assms obtain u us pl where l: "run_loop ?e ts ?p1 = Exit (u # us) pl"
    and f: "swapIn ?e u pl = Inr pf"
    by (auto simp: run_def assertInProcThread_def abortNotInProcThread_def CRITICAL_def
        split: if_splits prod.splits loop_result.splits list.splits)
  have i: "load ?p1 = load p" "pendingTasks ?p1 = pendingTasks p"
    by (simp_all add: run_init_def make_shared_def setState_def)
  from run_loop_load [OF l] obtain used where u: "ts = used @ u # us"
    "load pl = load ?p1
       + of_nat ((if used = [] then 0 else length (pendingTasks ?p1)) +
                 sum_list (map (\<lambda>u. localAdds (actions u) + length (pendingAdds (actions u))) used))
       - of_nat (length (filter (\<lambda>u. result u = State.TERM) used))"
    by blast
  have "load pf = load p
           + of_nat ((if used = [] then 0 else length (pendingTasks p)) +
                     sum_list (map (\<lambda>u. localAdds (actions u) + length (pendingAdds (actions u)))
                                used) +
                     localAdds (actions u))
           - of_nat (length (filter (\<lambda>u. result u = State.TERM) used))"
    unfolding swapIn_fields(1) [OF f] u(2) i by (simp add: algebra_simps)
  with u(1) show ?thesis by blast
qed

subsection \<open>What the drain of the pending tasks enqueues\<close>

lemma addTaskCb_exact:
  assumes "addTaskCb c n p = Inr p'"
  shows "\<exists>co. co = (if idleCoQue p = [] then nextCo p else hd (idleCoQue p)) \<and>
           runnableCoQue p' = runnableCoQue p @ [co] \<and>
           cos p' = (cos p)(co := \<lparr>cb = c, name = n, state = EXEC\<rparr>) \<and>
           idleCoQue p' = tl (idleCoQue p) \<and>
           nextCo p' = (if idleCoQue p = [] then Suc (nextCo p) else nextCo p) \<and>
           (idleCoQue p \<noteq> [] \<longrightarrow> getState co p = State.TERM \<or> getState co p = INIT)"
  using assms
  by (auto simp: proc_defs Let_def fun_eq_iff split: if_splits sum.splits)

lemma recycled_Suc:
  "recycled (Suc n) p =
     (if idleCoQue p = [] then nextCo p else hd (idleCoQue p)) #
     recycled n (p\<lparr>idleCoQue := tl (idleCoQue p),
                   nextCo := (if idleCoQue p = [] then Suc (nextCo p) else nextCo p)\<rparr>)"
  by (cases "idleCoQue p") (simp_all add: recycled_def upt_conv_Cons)

lemma recycled_cong:
  "idleCoQue q = idleCoQue p \<Longrightarrow> nextCo q = nextCo p \<Longrightarrow> recycled n q = recycled n p"
  by (simp add: recycled_def)

lemma addTasks_exact:
  "addTasks ts p = Inr p' \<Longrightarrow>
     runnableCoQue p' = runnableCoQue p @ recycled (length ts) p \<and>
     idleCoQue p' = drop (length ts) (idleCoQue p) \<and>
     nextCo p' = nextCo p + (length ts - length (idleCoQue p))"
proof (induction ts arbitrary: p)
  case Nil
  then show ?case by (simp add: recycled_def)
next
  case (Cons t ts)
  from Cons.prems obtain p1 where a: "addTaskCb (fst t) (snd t) p = Inr p1"
    and b: "addTasks ts p1 = Inr p'"
    by (auto split: sum.splits)
  note x = addTaskCb_exact [OF a]
  have r: "recycled (length ts) p1 =
      recycled (length ts) (p\<lparr>idleCoQue := tl (idleCoQue p),
                   nextCo := (if idleCoQue p = [] then Suc (nextCo p) else nextCo p)\<rparr>)"
    using x by (intro recycled_cong) auto
  show ?case
    using Cons.IH [OF b] x r
    by (cases "idleCoQue p") (auto simp: recycled_Suc drop_Suc)
qed

lemma addTaskCb_keeps:
  assumes "addTaskCb c n p = Inr p'" and "list_all (\<lambda>x. x < nextCo p) (idleCoQue p)"
    and "x < nextCo p" and "getState x p = EXEC"
  shows "cos p' x = cos p x \<and> list_all (\<lambda>x. x < nextCo p') (idleCoQue p') \<and> x < nextCo p'"
proof -
  from addTaskCb_exact [OF assms(1)] obtain co where
    co: "co = (if idleCoQue p = [] then nextCo p else hd (idleCoQue p))"
    "cos p' = (cos p)(co := \<lparr>cb = c, name = n, state = EXEC\<rparr>)"
    "idleCoQue p' = tl (idleCoQue p)"
    "nextCo p' = (if idleCoQue p = [] then Suc (nextCo p) else nextCo p)"
    "idleCoQue p \<noteq> [] \<longrightarrow> getState co p = State.TERM \<or> getState co p = INIT"
    by blast
  have "co \<noteq> x"
    using co(1,5) assms(3,4) by (cases "idleCoQue p = []") auto
  then show ?thesis
    using co assms(2,3) by (cases "idleCoQue p") (auto simp: list_all_iff)
qed

lemma addTasks_keeps:
  "addTasks ts p = Inr p' \<Longrightarrow> list_all (\<lambda>x. x < nextCo p) (idleCoQue p) \<Longrightarrow>
   x < nextCo p \<Longrightarrow> getState x p = EXEC \<Longrightarrow> cos p' x = cos p x"
proof (induction ts arbitrary: p)
  case Nil
  then show ?case by simp
next
  case (Cons t ts)
  from Cons.prems(1) obtain p1 where a: "addTaskCb (fst t) (snd t) p = Inr p1"
    and b: "addTasks ts p1 = Inr p'"
    by (auto split: sum.splits)
  from addTaskCb_keeps [OF a Cons.prems(2,3,4)]
  have k: "cos p1 x = cos p x" "list_all (\<lambda>x. x < nextCo p1) (idleCoQue p1)" "x < nextCo p1"
    by simp_all
  then have "getState x p1 = EXEC"
    using Cons.prems(4) by (simp add: getState_def)
  from Cons.IH [OF b k(2,3) this] k(1) show ?case by simp
qed

lemma addTasks_contents:
  "addTasks ts p = Inr p' \<Longrightarrow> list_all (\<lambda>x. x < nextCo p) (idleCoQue p) \<Longrightarrow>
     tasksOf p' (recycled (length ts) p) = ts \<and>
     list_all (\<lambda>c. getState c p' = EXEC) (recycled (length ts) p)"
proof (induction ts arbitrary: p)
  case Nil
  then show ?case by (simp add: recycled_def tasksOf_def)
next
  case (Cons t ts)
  from Cons.prems(1) obtain p1 where a: "addTaskCb (fst t) (snd t) p = Inr p1"
    and b: "addTasks ts p1 = Inr p'"
    by (auto split: sum.splits)
  from addTaskCb_exact [OF a] obtain co where
    co: "co = (if idleCoQue p = [] then nextCo p else hd (idleCoQue p))"
    "cos p1 = (cos p)(co := \<lparr>cb = fst t, name = snd t, state = EXEC\<rparr>)"
    "idleCoQue p1 = tl (idleCoQue p)"
    "nextCo p1 = (if idleCoQue p = [] then Suc (nextCo p) else nextCo p)"
    by blast
  have i1: "list_all (\<lambda>x. x < nextCo p1) (idleCoQue p1)"
    using co(3,4) Cons.prems(2) by (cases "idleCoQue p") (auto simp: list_all_iff)
  have c1: "co < nextCo p1"
    using co(1,4) Cons.prems(2) by (cases "idleCoQue p") auto
  have e1: "getState co p1 = EXEC"
    by (simp add: getState_def co(2))
  have keep: "cos p' co = \<lparr>cb = fst t, name = snd t, state = EXEC\<rparr>"
    using addTasks_keeps [OF b i1 c1 e1] by (simp add: co(2))
  have r: "recycled (length ts) p1 =
      recycled (length ts) (p\<lparr>idleCoQue := tl (idleCoQue p),
                   nextCo := (if idleCoQue p = [] then Suc (nextCo p) else nextCo p)\<rparr>)"
    using co by (intro recycled_cong) auto
  from Cons.IH [OF b i1] show ?case
    using keep r co(1) by (simp add: recycled_Suc tasksOf_def getState_def)
qed

lemma drain_exact:
  assumes "addPendingTasksIntoQueue p = Inr p'"
  shows "pendingTasks p' = []"
    "runnableCoQue p' = runnableCoQue p @ recycled (length (pendingTasks p)) p"
    "idleCoQue p' = drop (length (pendingTasks p)) (idleCoQue p)"
    "list_all (\<lambda>x. x < nextCo p) (idleCoQue p) \<longrightarrow>
       tasksOf p' (recycled (length (pendingTasks p)) p) = pendingTasks p \<and>
       list_all (\<lambda>c. getState c p' = EXEC) (recycled (length (pendingTasks p)) p)"
proof -
  let ?p2 = "p\<lparr>addingPendingTasks := True, pendingTasks := [],
               syncLog := syncLog p @ [Lock, PendingSwap, Unlock]\<rparr>"
  from assms obtain p3 where a: "addTasks (pendingTasks p) ?p2 = Inr p3"
    and b: "p' = p3\<lparr>addingPendingTasks := False\<rparr>"
    by (auto simp: addPendingTasksIntoQueue_def Let_def split: sum.splits)
  have r: "recycled (length (pendingTasks p)) ?p2 = recycled (length (pendingTasks p)) p"
    by (simp add: recycled_def)
  show "pendingTasks p' = []"
    using drain_fields(2) [OF assms] .
  show "runnableCoQue p' = runnableCoQue p @ recycled (length (pendingTasks p)) p"
    "idleCoQue p' = drop (length (pendingTasks p)) (idleCoQue p)"
    using addTasks_exact [OF a] r by (simp_all add: b)
  show "list_all (\<lambda>x. x < nextCo p) (idleCoQue p) \<longrightarrow>
       tasksOf p' (recycled (length (pendingTasks p)) p) = pendingTasks p \<and>
       list_all (\<lambda>c. getState c p' = EXEC) (recycled (length (pendingTasks p)) p)"
    using addTasks_contents [OF a] r by (simp add: b tasksOf_def getState_def)
qed

subsection \<open>The idle list holds terminated coroutines\<close>

lemma idleAllTerm_setState:
  "idleAllTerm p \<Longrightarrow> co \<notin> set (idleCoQue p) \<Longrightarrow> idleAllTerm (setState co st p)"
  by (auto simp: idleAllTerm_def list_all_iff setState_def getState_def)

lemma idleAllTerm_addTask:
  "idleAllTerm p \<Longrightarrow> co \<notin> set (idleCoQue p) \<Longrightarrow> idleAllTerm (addTask co p)"
  by (auto simp: idleAllTerm_def list_all_iff getState_def addTask_fields)

lemma resetAndGetCo_ok:
  assumes "idleAllTerm p"
  shows "\<exists>co p'. resetAndGetCo c n p = Inr (co, p') \<and> idleAllTerm p' \<and>
           co \<notin> set (idleCoQue p') \<and> co < nextCo p' \<and> nextCo p \<le> nextCo p' \<and>
           set (idleCoQue p') \<subseteq> set (idleCoQue p) \<and> runnableCoQue p' = runnableCoQue p"
proof (cases "idleCoQue p")
  case Nil
  with assms show ?thesis
    by (auto simp: resetAndGetCo_def make_shared_def idleAllTerm_def)
next
  case (Cons x xs)
  with assms have x: "getState x p = State.TERM" "x \<notin> set xs" "x < nextCo p" "distinct xs"
    "\<forall>y\<in>set xs. y < nextCo p \<and> getState y p = State.TERM"
    by (auto simp: idleAllTerm_def list_all_iff)
  then show ?thesis
    using Cons
    by (auto simp: resetAndGetCo_def reset_def Let_def setName_def getState_def
        idleAllTerm_def list_all_iff)
qed

lemma addTaskCb_ok:
  assumes "idleAllTerm p"
  shows "\<exists>p' co. addTaskCb c n p = Inr p' \<and> idleAllTerm p' \<and> nextCo p \<le> nextCo p' \<and>
           set (idleCoQue p') \<subseteq> set (idleCoQue p) \<and> co < nextCo p' \<and>
           runnableCoQue p' = runnableCoQue p @ [co]"
proof -
  from resetAndGetCo_ok [OF assms, of c n] obtain co p1
    where r: "resetAndGetCo c n p = Inr (co, p1)" "idleAllTerm p1" "co \<notin> set (idleCoQue p1)"
      "co < nextCo p1" "nextCo p \<le> nextCo p1" "set (idleCoQue p1) \<subseteq> set (idleCoQue p)"
      "runnableCoQue p1 = runnableCoQue p"
    by blast
  have "addTaskCb c n p = Inr (addTask co p1)"
    using r(1) by (simp add: addTaskCb_def)
  moreover have "idleAllTerm (addTask co p1)"
    using r(2,3) by (rule idleAllTerm_addTask)
  ultimately show ?thesis
    using r(4-7) by (auto simp: addTask_fields)
qed

lemma grows_refl: "idleAllTerm p \<Longrightarrow> grows p p"
  by (simp add: grows_def)

lemma grows_trans:
  assumes "grows p p1" and "grows p1 p2"
  shows "grows p p2"
proof -
  from assms(1) obtain a1 where a1: "runnableCoQue p1 = runnableCoQue p @ a1"
    "list_all (\<lambda>c. c < nextCo p1) a1"
    by (auto simp: grows_def)
  from assms(2) obtain a2 where a2: "runnableCoQue p2 = runnableCoQue p1 @ a2"
    "list_all (\<lambda>c. c < nextCo p2) a2"
    by (auto simp: grows_def)
  have le: "nextCo p1 \<le> nextCo p2" using assms(2) by (simp add: grows_def)
  have "runnableCoQue p2 = runnableCoQue p @ (a1 @ a2) \<and> list_all (\<lambda>c. c < nextCo p2) (a1 @ a2)"
    using a1 a2 le by (auto simp: list_all_iff)
  then have "\<exists>added. runnableCoQue p2 = runnableCoQue p @ added \<and>
               list_all (\<lambda>c. c < nextCo p2) added"
    by blast
  then show ?thesis
    using assms by (auto simp: grows_def)
qed

lemma addTaskCb_grows:
  assumes "idleAllTerm p"
  shows "\<exists>p'. addTaskCb c n p = Inr p' \<and> grows p p'"
proof -
  from addTaskCb_ok [OF assms, of c n] obtain p' co
    where "addTaskCb c n p = Inr p'" "idleAllTerm p'" "nextCo p \<le> nextCo p'"
      "set (idleCoQue p') \<subseteq> set (idleCoQue p)" "co < nextCo p'"
      "runnableCoQue p' = runnableCoQue p @ [co]"
    by blast
  then have "addTaskCb c n p = Inr p' \<and> grows p p'"
    by (auto simp: grows_def)
  then show ?thesis ..
qed

lemma addTasks_grows: "idleAllTerm p \<Longrightarrow> \<exists>p'. addTasks ts p = Inr p' \<and> grows p p'"
proof (induction ts arbitrary: p)
  case Nil
  then show ?case by (simp add: grows_refl)
next
  case (Cons t ts)
  from addTaskCb_grows [OF Cons.prems, of "fst t" "snd t"] obtain p1
    where p1: "addTaskCb (fst t) (snd t) p = Inr p1" "grows p p1"
    by blast
  then have "idleAllTerm p1" by (simp add: grows_def)
  from Cons.IH [OF this] obtain p' where "addTasks ts p1 = Inr p'" "grows p1 p'"
    by blast
  with p1 have "addTasks (t # ts) p = Inr p' \<and> grows p p'"
    by (auto intro: grows_trans)
  then show ?case ..
qed

lemma drain_grows:
  assumes "idleAllTerm p"
  shows "\<exists>p'. addPendingTasksIntoQueue p = Inr p' \<and> grows p p'"
proof -
  let ?p2 = "p\<lparr>addingPendingTasks := True, pendingTasks := [],
               syncLog := syncLog p @ [Lock, PendingSwap, Unlock]\<rparr>"
  have "idleAllTerm ?p2"
    using assms by (simp add: idleAllTerm_def getState_def)
  from addTasks_grows [OF this, of "pendingTasks p"] obtain p3
    where p3: "addTasks (pendingTasks p) ?p2 = Inr p3" "grows ?p2 p3"
    by blast
  have "addPendingTasksIntoQueue p = Inr (p3\<lparr>addingPendingTasks := False\<rparr>)"
    using p3(1) by (simp add: addPendingTasksIntoQueue_def Let_def)
  moreover have "grows p (p3\<lparr>addingPendingTasks := False\<rparr>)"
    using p3(2) by (simp add: grows_def idleAllTerm_def getState_def)
  ultimately show ?thesis by blast
qed

lemma perform_grows:
  assumes "idleAllTerm p" and "admissible a p"
  shows "\<exists>p'. perform a p = Inr p' \<and> grows p p'"
proof (cases a)
  case (CallAddTaskCo co)
  with assms have "idleAllTerm (addTask co p)" "co < nextCo p"
    by (simp_all add: idleAllTerm_addTask)
  then have "grows p (addTask co p)"
    by (simp add: grows_def addTask_fields)
  with CallAddTaskCo show ?thesis by simp
next
  case (CallAddTask c n)
  with addTaskCb_grows [OF assms(1), of c n] show ?thesis by simp
next
  case (CallAddPendingTask c n)
  with assms(1) show ?thesis
    by (simp add: grows_def idleAllTerm_def getState_def addPendingTask_def wakeupEpollCo_def)
next
  case CallStop
  with assms(1) show ?thesis
    by (simp add: grows_def idleAllTerm_def getState_def Processor_stop_def Let_def
        wakeupEpollCo_def)
next
  case (CallSetEpolling b)
  with assms(1) show ?thesis
    by (simp add: grows_def idleAllTerm_def getState_def setEpolling_def)
next
  case (CallUpdateEvent fd ev co)
  with assms(1) show ?thesis
    by (simp add: grows_def idleAllTerm_def getState_def updateEvent_def
        CoEpoll_updateEvent_def)
next
  case (CallRemoveEvent fd)
  with assms(1) show ?thesis
    by (simp add: grows_def idleAllTerm_def getState_def removeEvent_def
        CoEpoll_removeEvent_def)
qed

lemma performAll_grows:
  "idleAllTerm p \<Longrightarrow> admissibleAll as p \<Longrightarrow> \<exists>p'. performAll as p = Inr p' \<and> grows p p'"
proof (induction as arbitrary: p)
  case Nil
  then show ?case by (simp add: grows_refl)
next
  case (Cons a as)
  from Cons.prems have adm: "admissible a p" by simp
  from perform_grows [OF Cons.prems(1) adm] obtain p1
    where p1: "perform a p = Inr p1" "grows p p1"
    by blast
  then have "idleAllTerm p1" "admissibleAll as p1"
    using Cons.prems(2) by (simp_all add: grows_def)
  from Cons.IH [OF this] obtain p' where "performAll as p1 = Inr p'" "grows p1 p'"
    by blast
  with p1 have "performAll (a # as) p = Inr p' \<and> grows p p'"
    by (auto intro: grows_trans)
  then show ?case ..
qed

lemma swapIn_grows:
  assumes "idleAllTerm p" and "admissibleTurn co t p"
  shows "swapIn co t p = Inl (Fatal ''swapIn'') \<or>
         (\<exists>p'. swapIn co t p = Inr p' \<and> grows p p' \<and> co \<notin> set (idleCoQue p'))"
proof (cases "getState co p = State.TERM \<or> getState co p = EXCEPT")
  case True
  then show ?thesis by (simp add: swapIn_def CRITICAL_def)
next
  case False
  let ?p0 = "setState co EXEC (p\<lparr>swapLog := swapLog p @ [co]\<rparr>)"
  from False assms(1) have notin: "co \<notin> set (idleCoQue p)"
    by (auto simp: idleAllTerm_def list_all_iff)
  have "idleAllTerm (p\<lparr>swapLog := swapLog p @ [co]\<rparr>)"
    using assms(1) by (simp add: idleAllTerm_def getState_def)
  then have i0: "idleAllTerm ?p0"
    using notin by (simp add: idleAllTerm_setState)
  from performAll_grows [OF i0] assms(2) obtain p1
    where p1: "performAll (actions t) ?p0 = Inr p1" "grows ?p0 p1"
    by (auto simp: admissibleTurn_def)
  have n1: "co \<notin> set (idleCoQue p1)"
    using p1(2) notin by (auto simp: grows_def setState_fields)
  have "idleAllTerm (setState co (result t) p1)"
    using p1(2) n1 by (simp add: grows_def idleAllTerm_setState)
  then have "grows p (setState co (result t) p1)"
    using p1(2) by (simp add: grows_def setState_fields)
  moreover have "swapIn co t p = Inr (setState co (result t) p1)"
    using False p1(1) by (simp add: swapIn_def)
  ultimately show ?thesis
    using n1 by (simp add: setState_fields)
qed

lemma idleAllTerm_retire:
  "idleAllTerm p \<Longrightarrow> cur \<notin> set (idleCoQue p) \<Longrightarrow> cur < nextCo p \<Longrightarrow>
     idleAllTerm (retire cur p)"
  by (auto simp: retire_def idleAllTerm_def list_all_iff getState_def)

lemma run_iter_unfold:
  "run_iter e t p =
     (case swapIn (fst (pickCur e p)) t (snd (pickCur e p)) of
        Inl er \<Rightarrow> Inl er
      | Inr p2 \<Rightarrow> addPendingTasksIntoQueue (retire (fst (pickCur e p)) p2))"
  by (cases "pickCur e p") (auto simp: run_iter_def split: sum.splits)

lemma run_iter_ok:
  assumes "idleAllTerm p" and "knownCoroutines e p"
    and "admissibleTurn (fst (pickCur e p)) t (snd (pickCur e p))"
  shows "run_iter e t p = Inl (Fatal ''swapIn'') \<or>
         (\<exists>p'. run_iter e t p = Inr p' \<and> idleAllTerm p' \<and> knownCoroutines e p')"
proof -
  let ?cur = "fst (pickCur e p)" and ?p1 = "snd (pickCur e p)"
  have cur: "?cur < nextCo p"
    using assms(2) by (cases "runnableCoQue p") (auto simp: pickCur_def knownCoroutines_def)
  have i1: "idleAllTerm ?p1"
    using assms(1) by (simp add: pickCur_def idleAllTerm_def getState_def setEpolling_def)
  have n1: "nextCo ?p1 = nextCo p"
    by (simp add: pickCur_def setEpolling_def)
  have q1: "list_all (\<lambda>c. c < nextCo p) (runnableCoQue ?p1)"
    using assms(2)
    by (cases "runnableCoQue p") (auto simp: pickCur_def knownCoroutines_def setEpolling_def)
  from swapIn_grows [OF i1 assms(3)] show ?thesis
  proof
    assume "swapIn ?cur t ?p1 = Inl (Fatal ''swapIn'')"
    then show ?thesis by (simp add: run_iter_unfold)
  next
    assume "\<exists>p'. swapIn ?cur t ?p1 = Inr p' \<and> grows ?p1 p' \<and> ?cur \<notin> set (idleCoQue p')"
    then obtain p2 where p2: "swapIn ?cur t ?p1 = Inr p2" "grows ?p1 p2"
      "?cur \<notin> set (idleCoQue p2)"
      by blast
    have le2: "nextCo p \<le> nextCo p2"
      using p2(2) n1 by (simp add: grows_def)
    have "idleAllTerm (retire ?cur p2)"
      using p2 cur le2 by (intro idleAllTerm_retire) (auto simp: grows_def)
    from drain_grows [OF this] obtain p'
      where p': "addPendingTasksIntoQueue (retire ?cur p2) = Inr p'" "grows (retire ?cur p2) p'"
      by blast
    have r: "run_iter e t p = Inr p'"
      using p2(1) p'(1) by (simp add: run_iter_unfold)
    have nr: "nextCo (retire ?cur p2) = nextCo p2"
      "runnableCoQue (retire ?cur p2) = runnableCoQue p2"
      by (simp_all add: retire_def)
    have le3: "nextCo p2 \<le> nextCo p'"
      using p'(2) nr by (simp add: grows_def)
    from p2(2) obtain a1 where a1: "runnableCoQue p2 = runnableCoQue ?p1 @ a1"
      "list_all (\<lambda>c. c < nextCo p2) a1"
      by (auto simp: grows_def)
    from p'(2) obtain a2 where a2: "runnableCoQue p' = runnableCoQue p2 @ a2"
      "list_all (\<lambda>c. c < nextCo p') a2"
      by (auto simp: grows_def nr)
    have "list_all (\<lambda>c. c < nextCo p') (runnableCoQue p')"
      using a1 a2 q1 le2 le3 by (auto simp: list_all_iff)
    moreover have "e < nextCo p'"
      using assms(2) le2 le3 by (simp add: knownCoroutines_def)
    ultimately have "knownCoroutines e p'"
      by (simp add: knownCoroutines_def)
    moreover have "idleAllTerm p'"
      using p'(2) by (simp add: grows_def)
    ultimately show ?thesis using r by blast
  qed
qed

lemma run_loop_ok:
  "idleAllTerm p \<Longrightarrow> knownCoroutines e p \<Longrightarrow> admissibleScript e ts p \<Longrightarrow>
     run_loop e ts p = Raised (Fatal ''swapIn'') \<or>
     (\<exists>p'. (run_loop e ts p = Unfinished p' \<or> (\<exists>ts'. run_loop e ts p = Exit ts' p')) \<and>
           idleAllTerm p' \<and> knownCoroutines e p')"
proof (induction ts arbitrary: p)
  case Nil
  then show ?case by auto
next
  case (Cons t ts)
  show ?case
  proof (cases "loopCond p")
    case False
    with Cons.prems show ?thesis by auto
  next
    case True
    with Cons.prems have adm: "admissibleTurn (fst (pickCur e p)) t (snd (pickCur e p))"
      by simp
    from run_iter_ok [OF Cons.prems(1,2) adm] show ?thesis
    proof
      assume "run_iter e t p = Inl (Fatal ''swapIn'')"
      with True show ?thesis by simp
    next
      assume "\<exists>p'. run_iter e t p = Inr p' \<and> idleAllTerm p' \<and> knownCoroutines e p'"
      then obtain p1 where p1: "run_iter e t p = Inr p1" "idleAllTerm p1" "knownCoroutines e p1"
        by blast
      with True Cons.prems(3) have "admissibleScript e ts p1" by simp
      from Cons.IH [OF p1(2,3) this] show ?thesis
        using True p1(1) by simp
    qed
  qed
qed

lemma run_init_ok:
  assumes "idleAllTerm p" and "list_all (\<lambda>c. c < nextCo p) (runnableCoQue p)"
  shows "idleAllTerm (snd (run_init p)) \<and> knownCoroutines (fst (run_init p)) (snd (run_init p))"
  using assms
  by (auto simp: run_init_def make_shared_def setState_def getState_def idleAllTerm_def
      knownCoroutines_def list_all_iff)

lemma run_no_reset_failure:
  assumes "idleAllTerm p" and "list_all (\<lambda>c. c < nextCo p) (runnableCoQue p)"
    and "admissibleRun ts p"
  shows "run tid ts p \<noteq> Some (Inl (AssertionFailed ''reset''))"
proof (cases "threadId p = tid")
  case False
  then show ?thesis
    by (simp add: run_def assertInProcThread_def isInProcThread_def abortNotInProcThread_def
        CRITICAL_def)
next
  case True
  let ?e = "fst (run_init p)" and ?p1 = "snd (run_init p)"
  have r: "run tid ts p =
      (case run_loop ?e ts ?p1 of
         Unfinished p2 \<Rightarrow> None
       | Raised er \<Rightarrow> Some (Inl er)
       | Exit ts1 p2 \<Rightarrow> (case ts1 of [] \<Rightarrow> None | t # ts2 \<Rightarrow> Some (swapIn ?e t p2)))"
    using True
    by (cases "run_init p")
      (auto simp: run_def assertInProcThread_def isInProcThread_def
        split: loop_result.splits list.splits)
  have adm: "admissibleScript ?e ts ?p1"
    using assms(3) by (cases "run_init p") (simp add: admissibleRun_def)
  from run_init_ok [OF assms(1,2)] have i: "idleAllTerm ?p1" "knownCoroutines ?e ?p1"
    by simp_all
  from run_loop_ok [OF i adm] show ?thesis
  proof
    assume "run_loop ?e ts ?p1 = Raised (Fatal ''swapIn'')"
    then show ?thesis by (simp add: r)
  next
    assume "\<exists>p'. (run_loop ?e ts ?p1 = Unfinished p' \<or> (\<exists>ts'. run_loop ?e ts ?p1 = Exit ts' p')) \<and>
           idleAllTerm p' \<and> knownCoroutines ?e p'"
    then obtain p' where p': "run_loop ?e ts ?p1 = Unfinished p' \<or>
        (\<exists>ts'. run_loop ?e ts ?p1 = Exit ts' p')" "idleAllTerm p'"
      by blast
    from p'(1) show ?thesis
    proof
      assume "run_loop ?e ts ?p1 = Unfinished p'"
      then show ?thesis by (simp add: r)
    next
      assume "\<exists>ts'. run_loop ?e ts ?p1 = Exit ts' p'"
      then obtain ts' where x: "run_loop ?e ts ?p1 = Exit ts' p'" ..
      show ?thesis
      proof (cases ts')
        case Nil
        with x show ?thesis by (simp add: r)
      next
        case (Cons t ts2)
        with x assms(3) have "admissibleTurn ?e t p'"
          by (cases "run_init p") (simp add: admissibleRun_def)
        from swapIn_grows [OF p'(2) this] show ?thesis
          using x Cons by (auto simp: r)
      qed
    qed
  qed
qed

section \<open>Properties\<close>

subsection \<open>Coroutines in state EXEC\<close>

text \<open>
  C1, as stated, does not hold: \<^verbatim>\<open>Processor::addTask\<close> sets a coroutine to EXEC when it
  enqueues it, so the two coroutines enqueued by the constructor are both in state EXEC
  while they sit in the runnable queue.
\<close>

theorem queued_EXEC_counterexample:
  "runnableCoQue (projr (Processor_ctor False 1)) = [0, 1] \<and>
   getState 0 (projr (Processor_ctor False 1)) = EXEC \<and>
   getState 1 (projr (Processor_ctor False 1)) = EXEC"
  by (simp add: Processor_ctor_def emptyProcessor_def proc_defs Let_def)

text \<open>
  C1 (amended): \<^verbatim>\<open>addTask\<close> puts the coroutine it enqueues in state EXEC, and \<^verbatim>\<open>run\<close>
  does the same for the epoll coroutine it creates. Hence the coroutines of the runnable
  queue are all in state EXEC after construction, and they remain so across
  \<^verbatim>\<open>addTask\<close> (both overloads) and \<^verbatim>\<open>addPendingTasksIntoQueue\<close>: EXEC marks the coroutines
  that have been scheduled, not only the one that is executing.
\<close>

theorem queued_coroutines_EXEC:
  "getState co (addTask co p) = EXEC \<and>
   runnableCoQue (addTask co p) = runnableCoQue p @ [co] \<and>
   getState (fst (run_init p)) (snd (run_init p)) = EXEC \<and>
   (queuedInExec p \<longrightarrow> queuedInExec (addTask co p)) \<and>
   (queuedInExec p \<and> addTaskCb c n p = Inr p1 \<longrightarrow> queuedInExec p1) \<and>
   (queuedInExec p \<and> addPendingTasksIntoQueue p = Inr p2 \<longrightarrow> queuedInExec p2) \<and>
   (Processor_ctor False tid = Inr p3 \<longrightarrow> queuedInExec p3)"
proof -
  have "getState co (addTask co p) = EXEC"
    by (simp add: proc_defs Let_def)
  moreover have "runnableCoQue (addTask co p) = runnableCoQue p @ [co]"
    by (simp add: proc_defs Let_def)
  moreover have "getState (fst (run_init p)) (snd (run_init p)) = EXEC"
    by (simp add: run_init_def proc_defs)
  moreover have "Processor_ctor False tid = Inr p3 \<longrightarrow> queuedInExec p3"
    using ctor_result [of tid] by (auto simp: queuedInExec_def getState_def)
  ultimately show ?thesis
    using queuedInExec_addTask queuedInExec_addTaskCb queuedInExec_drain by blast
qed

theorem queued_coroutines_EXEC_witness:
  "queuedInExec (projr (Processor_ctor False 1)) \<and>
   addTaskCb (UserCb 7) ''job'' (projr (Processor_ctor False 1))
     = Inr (projr (addTaskCb (UserCb 7) ''job'' (projr (Processor_ctor False 1)))) \<and>
   queuedInExec (projr (addTaskCb (UserCb 7) ''job'' (projr (Processor_ctor False 1)))) \<and>
   runnableCoQue (projr (addTaskCb (UserCb 7) ''job'' (projr (Processor_ctor False 1)))) = [0, 1, 2] \<and>
   queuedInExec (projr (addPendingTasksIntoQueue (projr (Processor_ctor False 1))))"
  using queued_coroutines_EXEC [of 0 "projr (Processor_ctor False 1)" "UserCb 7" "''job''"
      "projr (addTaskCb (UserCb 7) ''job'' (projr (Processor_ctor False 1)))"
      "projr (addPendingTasksIntoQueue (projr (Processor_ctor False 1)))" 1
      "projr (Processor_ctor False 1)"]
  by (simp add: Processor_ctor_def emptyProcessor_def proc_defs Let_def
      addPendingTasksIntoQueue_def)

subsection \<open>The pending-tasks buffer and its mutex\<close>

text \<open>
  C4: every access to \<^verbatim>\<open>pendingTasks_\<close> should be made under the mutex. The swap of
  \<^verbatim>\<open>addPendingTasksIntoQueue\<close> is; the append of \<^verbatim>\<open>addPendingTask\<close> is made with the mutex
  not held.
\<close>

theorem addPendingTask_not_under_mutex:
  "guardedFrom False (syncLog (addPendingTask (UserCb 1) ''t'' (emptyProcessor 1))) = False \<and>
   guardedFrom False (syncLog (projr (addPendingTasksIntoQueue (emptyProcessor 1)))) = True"
  by (simp add: addPendingTask_def addPendingTasksIntoQueue_def emptyProcessor_def
      wakeupEpollCo_def)

subsection \<open>Calls from a thread that does not own the Processor\<close>


subsection \<open>The two coroutines of the constructor\<close>

text \<open>
  C9, as stated, does not hold for the ``Wake'' coroutine: its lambda leaves the loop,
  and so returns, when reading the wakeup fd fails, although \<^verbatim>\<open>stop_\<close> is unset.
\<close>

theorem Wake_returns_counterexample:
  "WakeLambda [(False, - 1)] = Some ReadFailed"
  by (simp add: consumeWakeUp_def)

text \<open>
  C9 (amended): the constructor enqueues two coroutines, ``Wake'' and ``timerQue'', so
  that right after construction the runnable queue holds exactly these two and the load
  counter is 2. The lambda of ``timerQue'' keeps looping as long as it reads \<^verbatim>\<open>stop_\<close>
  unset and returns the first time it reads it set. The lambda of ``Wake'' keeps looping as
  long as it reads \<^verbatim>\<open>stop_\<close> unset and \<^verbatim>\<open>consumeWakeUp\<close> returns a value that is not
  negative; it returns the first time it reads \<^verbatim>\<open>stop_\<close> set, and the first time
  \<^verbatim>\<open>consumeWakeUp\<close> returns a negative value.
\<close>

theorem ctor_helper_coroutines:
  "(\<exists>p. Processor_ctor False tid = Inr p \<and> runnableCoQue p = [0, 1] \<and> load p = 2 \<and>
        cos p 0 = \<lparr>cb = WakeCb, name = ''Wake'', state = EXEC\<rparr> \<and>
        cos p (Suc 0) = \<lparr>cb = TimerQueCb, name = ''timerQue'', state = EXEC\<rparr>) \<and>
   (True \<notin> set pre1 \<longrightarrow>
      TimerQueLambda pre1 = None \<and>
      TimerQueLambda (pre1 @ True # post1) = Some StopSeen) \<and>
   (list_all (\<lambda>(stp, n). \<not> stp \<and> 0 \<le> n) pre2 \<longrightarrow>
      WakeLambda pre2 = None \<and>
      WakeLambda (pre2 @ (True, n1) # post2) = Some StopSeen \<and>
      (n2 < 0 \<longrightarrow> WakeLambda (pre2 @ (False, n2) # post2) = Some ReadFailed))"
  using ctor_result TimerQueLambda_loops TimerQueLambda_first WakeLambda_loops
    WakeLambda_first_stop WakeLambda_first_failure by blast

theorem ctor_helper_coroutines_witness:
  "True \<notin> set [False, False] \<and> TimerQueLambda [False, False] = None \<and>
   TimerQueLambda ([False, False] @ True # [False]) = Some StopSeen \<and>
   list_all (\<lambda>(stp, n). \<not> stp \<and> (0::int) \<le> n) [(False, 8), (False, 0)] \<and>
   WakeLambda [(False, 8), (False, 0)] = None \<and>
   WakeLambda ([(False, 8), (False, 0)] @ (True, 8) # [(False, 8)]) = Some StopSeen \<and>
   (- 1::int) < 0 \<and>
   WakeLambda ([(False, 8), (False, 0)] @ (False, - 1) # [(False, 8)]) = Some ReadFailed"
  using ctor_helper_coroutines [of 1 "[False, False]" "[False]" "[(False, 8), (False, 0)]"
      8 "[(False, 8)]" "- 1"]
  by (simp add: consumeWakeUp_def)

subsection \<open>Submitting work when there is no Processor\<close>

text \<open>
  C10: when the Scheduler has no worker Processor and no main Processor, which is the
  case before \<^verbatim>\<open>start\<close> and again once \<^verbatim>\<open>stop\<close> has cleared the main Processor of a
  Scheduler without workers, \<^verbatim>\<open>addTask\<close>, \<^verbatim>\<open>runAt\<close>, \<^verbatim>\<open>runAfter\<close> and \<^verbatim>\<open>runEvery\<close> end in the
  fatal error ``start scheduler first'', whatever the value of the index; nothing is
  queued.
\<close>

theorem submit_without_processor_fatal:
  "(workProcVec s = [] \<and> mainProc s = None \<longrightarrow>
      pickOneProcesser ix s = Inl (Fatal ''start scheduler first'') \<and>
      Scheduler_addTask ix c n s = Inl (Fatal ''start scheduler first'') \<and>
      runAt ix w pl s = Inl (Fatal ''start scheduler first'') \<and>
      runAfter ix now d pl s = Inl (Fatal ''start scheduler first'') \<and>
      runEvery ix now i pl s = Inl (Fatal ''start scheduler first'')) \<and>
   (workProcVec s = [] \<and> running s \<and> mainProc s = Some m \<longrightarrow>
      workProcVec (requestStop m s) = [] \<and> mainProc (requestStop m s) = None \<and>
      Scheduler_addTask ix c n (requestStop m s) = Inl (Fatal ''start scheduler first'') \<and>
      runAt ix w pl (requestStop m s) = Inl (Fatal ''start scheduler first'') \<and>
      runAfter ix now d pl (requestStop m s) = Inl (Fatal ''start scheduler first'') \<and>
      runEvery ix now i pl (requestStop m s) = Inl (Fatal ''start scheduler first'') \<and>
      (\<exists>s1. Scheduler_stop True ended s = Some (Inr s1)) \<and>
      (list_all ended (joinTargets s) \<longrightarrow> (\<exists>s2. Scheduler_stop False ended s = Some (Inr s2))) \<and>
      (Scheduler_stop h ended s = Some (Inr s') \<longrightarrow>
         workProcVec s' = [] \<and> mainProc s' = None \<and>
         Scheduler_addTask ix c n s' = Inl (Fatal ''start scheduler first'') \<and>
         runAt ix w pl s' = Inl (Fatal ''start scheduler first'') \<and>
         runAfter ix now d pl s' = Inl (Fatal ''start scheduler first'') \<and>
         runEvery ix now i pl s' = Inl (Fatal ''start scheduler first''))) \<and>
   Scheduler_addTask ix c n (newScheduler k ps) = Inl (Fatal ''start scheduler first'') \<and>
   runAt ix w pl (newScheduler k ps) = Inl (Fatal ''start scheduler first'') \<and>
   runAfter ix now d pl (newScheduler k ps) = Inl (Fatal ''start scheduler first'') \<and>
   runEvery ix now i pl (newScheduler k ps) = Inl (Fatal ''start scheduler first'')"
  by (auto simp: pickOneProcesser_def Scheduler_addTask_def runAt_def runAfter_def
      runEvery_def onPicked_def CRITICAL_def Scheduler_stop_def joinThread_eq
      requestStop_fields newScheduler_def split: if_splits)

theorem submit_without_processor_fatal_witness:
  "workProcVec (newScheduler 1 (\<lambda>_. emptyProcessor 1)) = [] \<and>
   mainProc (newScheduler 1 (\<lambda>_. emptyProcessor 1)) = None \<and>
   Scheduler_addTask 0 (UserCb 1) ''t'' (newScheduler 1 (\<lambda>_. emptyProcessor 1))
     = Inl (Fatal ''start scheduler first'') \<and>
   workProcVec (Scheduler_start 0 Suc Suc (newScheduler 1 (\<lambda>_. emptyProcessor 1))) = [] \<and>
   running (Scheduler_start 0 Suc Suc (newScheduler 1 (\<lambda>_. emptyProcessor 1))) \<and>
   mainProc (Scheduler_start 0 Suc Suc (newScheduler 1 (\<lambda>_. emptyProcessor 1))) = Some 0 \<and>
   list_all (\<lambda>_. True)
     (joinTargets (Scheduler_start 0 Suc Suc (newScheduler 1 (\<lambda>_. emptyProcessor 1)))) \<and>
   Scheduler_stop False (\<lambda>_. True)
       (Scheduler_start 0 Suc Suc (newScheduler 1 (\<lambda>_. emptyProcessor 1)))
     = Some (Inr (projr (the (Scheduler_stop False (\<lambda>_. True)
         (Scheduler_start 0 Suc Suc (newScheduler 1 (\<lambda>_. emptyProcessor 1))))))) \<and>
   Scheduler_addTask 0 (UserCb 1) ''t''
     (projr (the (Scheduler_stop False (\<lambda>_. True)
        (Scheduler_start 0 Suc Suc (newScheduler 1 (\<lambda>_. emptyProcessor 1))))))
     = Inl (Fatal ''start scheduler first'')"
  using submit_without_processor_fatal [of "newScheduler 1 (\<lambda>_. emptyProcessor 1)"
      0 "UserCb 1" "''t''" 0 "Inl 0" 0 0 0 0 "\<lambda>_. True" False
      "newScheduler 1 (\<lambda>_. emptyProcessor 1)" 1 "\<lambda>_. emptyProcessor 1"]
    submit_without_processor_fatal
      [of "Scheduler_start 0 Suc Suc (newScheduler 1 (\<lambda>_. emptyProcessor 1))"
        0 "UserCb 1" "''t''" 0 "Inl 0" 0 0 0 0 "\<lambda>_. True" False
        "projr (the (Scheduler_stop False (\<lambda>_. True)
           (Scheduler_start 0 Suc Suc (newScheduler 1 (\<lambda>_. emptyProcessor 1)))))"
        1 "\<lambda>_. emptyProcessor 1"]
  by (auto simp: newScheduler_def Scheduler_start_def joinTargets_def)

subsection \<open>Round-robin dispatch over the workers\<close>

text \<open>
  C2: every call of \<^verbatim>\<open>pickOneProcesser\<close> on a Scheduler with workers should return a
  worker, chosen cyclically. The round-robin index is a function-local \<^verbatim>\<open>static\<close>, shared
  by all the Schedulers of the process, and the code asserts that it is below the number
  of workers. Two submissions to a Scheduler with three workers leave it at 2; the next
  submission to another Scheduler of the process, which has two workers, fails this
  assertion instead of returning a worker.
\<close>

theorem stale_round_robin_index:
  "workProcVec demoWorkers = [1, 2, 3] \<and>
   map (\<lambda>i. pickOneProcesser i demoWorkers) [0, 1, 2]
     = [Inr (Some 1, 1), Inr (Some 2, 2), Inr (Some 3, 0)] \<and>
   fst (projr (submitAll 0 [(UserCb 0, ''a''), (UserCb 1, ''b'')] demoWorkers)) = 2 \<and>
   workProcVec demoFewer = [11, 12] \<and>
   pickOneProcesser 2 demoFewer = Inl (AssertionFailed ''index < workProcVec_.size()'') \<and>
   Scheduler_addTask 2 (UserCb 2) ''c'' demoFewer
     = Inl (AssertionFailed ''index < workProcVec_.size()'') \<and>
   runAt 2 0 (Inl 0) demoFewer = Inl (AssertionFailed ''index < workProcVec_.size()'')"
  by (simp add: demoWorkers_eq demoFewer_eq Scheduler_addTask_def pickOneProcesser_def
      runAt_def onPicked_def)

subsection \<open>Stopping and joining\<close>

text \<open>
  C8, as stated, does not hold: \<^verbatim>\<open>quit_\<close> is set by \<^verbatim>\<open>joinThread\<close> and never reset, so on
  a Scheduler that has been stopped and started again \<^verbatim>\<open>wait\<close> returns although the
  Scheduler is running; and after \<^verbatim>\<open>stop\<close> has been called from a thread with hooks, it
  returns although no thread has ended and the helper thread has made no join.
\<close>

theorem wait_after_restart_counterexample:
  "running demoRestarted \<and>
   wait demoRestarted = Some demoRestarted \<and>
   joinLog demoRestarted = [(Caller, WorkThread 11), (Caller, WorkThread 12)] \<and>
   workThreadVec demoRestarted = [11, 12, 21, 22] \<and>
   joinLog (helperThread (\<lambda>_. False)
     (projr (the (Scheduler_stop True (\<lambda>_. False) demoRestarted))))
     = [(Caller, WorkThread 11), (Caller, WorkThread 12)] \<and>
   wait (helperThread (\<lambda>_. False)
     (projr (the (Scheduler_stop True (\<lambda>_. False) demoRestarted))))
     = Some (helperThread (\<lambda>_. False)
         (projr (the (Scheduler_stop True (\<lambda>_. False) demoRestarted))))"
  by (simp add: demoRestarted_eq Scheduler_stop_def joinThread_eq joinTargets_def
      requestStop_def helperThread_def wait_def Let_def)

text \<open>
  C8 (amended): \<^verbatim>\<open>Scheduler::stop\<close> on a running Scheduler clears \<^verbatim>\<open>running_\<close>, requests
  stop on the main Processor and on every worker Processor and clears \<^verbatim>\<open>mainProc_\<close>; on a
  Scheduler that is not running it does nothing. When the hook flag of the calling thread
  is set, \<^verbatim>\<open>stop\<close> then creates a detached helper thread and returns without making any
  join; when it is unset, the caller runs \<^verbatim>\<open>joinThread\<close> itself. \<^verbatim>\<open>joinThread\<close>, run by
  the helper or by the caller, joins the scheduler thread if it is joinable and then every
  worker thread, in order; a join blocks as long as the joined thread has not ended, and
  \<^verbatim>\<open>joinThread\<close> sets \<^verbatim>\<open>quit_\<close> only after the last join. \<^verbatim>\<open>wait\<close> returns exactly when
  \<^verbatim>\<open>quit_\<close> is set, and neither \<^verbatim>\<open>start\<close> nor \<^verbatim>\<open>stop\<close> writes \<^verbatim>\<open>quit_\<close> otherwise. Hence, on
  a Scheduler whose \<^verbatim>\<open>quit_\<close> is not set, \<^verbatim>\<open>wait\<close> returns only after these joins have
  completed.
\<close>

theorem Scheduler_stop_joins:
  "(running s \<and> mainProc s = Some m \<longrightarrow>
      \<not> running (requestStop m s) \<and> mainProc (requestStop m s) = None \<and>
      stop (procs (requestStop m s) m) \<and>
      (\<forall>w\<in>set (workProcVec s). stop (procs (requestStop m s) w)) \<and>
      joinLog (requestStop m s) = joinLog s \<and> quit (requestStop m s) = quit s \<and>
      joinTargets (requestStop m s) = joinTargets s \<and>
      Scheduler_stop True ended s =
        Some (Inr ((requestStop m s)\<lparr>detached := Suc (detached s)\<rparr>)) \<and>
      Scheduler_stop False ended s =
        (case joinThread Caller ended (requestStop m s) of
           None \<Rightarrow> None
         | Some s5 \<Rightarrow> Some (Inr s5))) \<and>
   (\<not> running s \<longrightarrow> Scheduler_stop h ended s = Some (Inr s)) \<and>
   (list_all ended (joinTargets s) \<longrightarrow>
      joinThread who ended s =
        Some (s\<lparr>joinLog := joinLog s @ map (Pair who) (joinTargets s),
                threadJoinable := False, quit := True\<rparr>) \<and>
      (0 < detached s \<longrightarrow>
         helperThread ended s =
           s\<lparr>joinLog := joinLog s @ map (Pair Helper) (joinTargets s),
             threadJoinable := False, quit := True, detached := detached s - 1\<rparr>)) \<and>
   (\<not> list_all ended (joinTargets s) \<longrightarrow>
      joinThread who ended s = None \<and> helperThread ended s = s) \<and>
   joinTargets s =
     (if threadJoinable s then [SchedulerThread] else []) @ map WorkThread (workThreadVec s) \<and>
   wait s = (if quit s then Some s else None) \<and>
   quit (Scheduler_start m1 wt wp s) = quit s \<and>
   (running s \<and> mainProc s = Some m \<and> \<not> quit s \<longrightarrow>
      wait (requestStop m s) = None \<and>
      wait ((requestStop m s)\<lparr>detached := Suc (detached s)\<rparr>) = None \<and>
      (wait (helperThread ended ((requestStop m s)\<lparr>detached := Suc (detached s)\<rparr>)) \<noteq> None \<longrightarrow>
         list_all ended (joinTargets s) \<and>
         joinLog (helperThread ended ((requestStop m s)\<lparr>detached := Suc (detached s)\<rparr>))
           = joinLog s @ map (Pair Helper) (joinTargets s)) \<and>
      (Scheduler_stop False ended s = Some (Inr s') \<longrightarrow>
         list_all ended (joinTargets s) \<and>
         joinLog s' = joinLog s @ map (Pair Caller) (joinTargets s) \<and>
         wait s' = Some s'))"
  (is "?req \<and> ?idle \<and> ?join \<and> ?block \<and> ?targets \<and> ?wait \<and> ?start \<and> ?first")
proof -
  have req: ?req
    by (simp add: requestStop_fields Scheduler_stop_def)
  have idle: ?idle
    by (simp add: Scheduler_stop_def)
  have join: ?join
    by (simp add: joinThread_eq helperThread_def)
  have block: ?block
    by (simp add: joinThread_eq helperThread_def)
  have targets: ?targets
    by (simp add: joinTargets_def)
  have wait: ?wait
    by (simp add: wait_def)
  have start: ?start
    by (simp add: Scheduler_start_def)
  have first: ?first
    by (auto simp: wait_def requestStop_fields Scheduler_stop_def joinThread_eq
        helperThread_def joinTargets_detached split: if_splits)
  from req idle join block targets wait start first show ?thesis
    by (intro conjI)
qed

theorem Scheduler_stop_joins_witness:
  "running demoWorkers \<and> mainProc demoWorkers = Some 0 \<and> \<not> quit demoWorkers \<and>
   joinTargets (demoWorkers\<lparr>threadJoinable := True\<rparr>)
     = [SchedulerThread, WorkThread 1, WorkThread 2, WorkThread 3] \<and>
   map (\<lambda>w. stop (procs (requestStop 0 demoWorkers) w)) [0, 1, 2, 3, 4]
     = [True, True, True, True, False] \<and>
   joinLog (projr (the (Scheduler_stop True (\<lambda>_. True) demoWorkers))) = [] \<and>
   wait (projr (the (Scheduler_stop True (\<lambda>_. True) demoWorkers))) = None \<and>
   joinLog (helperThread (\<lambda>_. True) (projr (the (Scheduler_stop True (\<lambda>_. True) demoWorkers))))
     = [(Helper, WorkThread 1), (Helper, WorkThread 2), (Helper, WorkThread 3)] \<and>
   quit (helperThread (\<lambda>_. True) (projr (the (Scheduler_stop True (\<lambda>_. True) demoWorkers)))) \<and>
   Scheduler_stop False (\<lambda>_. True) demoWorkers
     = Some (Inr (projr (the (Scheduler_stop False (\<lambda>_. True) demoWorkers)))) \<and>
   joinLog (projr (the (Scheduler_stop False (\<lambda>_. True) demoWorkers)))
     = [(Caller, WorkThread 1), (Caller, WorkThread 2), (Caller, WorkThread 3)] \<and>
   \<not> list_all (\<lambda>t. t \<noteq> WorkThread 2) (joinTargets demoWorkers) \<and>
   Scheduler_stop False (\<lambda>t. t \<noteq> WorkThread 2) demoWorkers = None \<and>
   helperThread (\<lambda>t. t \<noteq> WorkThread 2)
     (projr (the (Scheduler_stop True (\<lambda>t. t \<noteq> WorkThread 2) demoWorkers)))
     = projr (the (Scheduler_stop True (\<lambda>t. t \<noteq> WorkThread 2) demoWorkers)) \<and>
   \<not> running (newScheduler 4 (\<lambda>_. emptyProcessor 0)) \<and>
   Scheduler_stop True (\<lambda>_. True) (newScheduler 4 (\<lambda>_. emptyProcessor 0))
     = Some (Inr (newScheduler 4 (\<lambda>_. emptyProcessor 0)))"
  using Scheduler_stop_joins [where s = demoWorkers and m = 0 and ended = "\<lambda>_. True"
      and h = True and who = Caller and ?m1.0 = 0 and wt = Suc and wp = Suc
      and s' = "projr (the (Scheduler_stop False (\<lambda>_. True) demoWorkers))"]
    Scheduler_stop_joins [where s = "requestStop 0 demoWorkers" and m = 0
      and ended = "\<lambda>t. t \<noteq> WorkThread 2"
      and h = True and who = Caller and ?m1.0 = 0 and wt = Suc and wp = Suc
      and s' = demoWorkers]
    Scheduler_stop_joins [where s = "(requestStop 0 demoWorkers)\<lparr>detached := 1\<rparr>" and m = 0
      and ended = "\<lambda>_. True"
      and h = True and who = Helper and ?m1.0 = 0 and wt = Suc and wp = Suc
      and s' = demoWorkers]
    Scheduler_stop_joins [where s = "newScheduler 4 (\<lambda>_. emptyProcessor 0)" and m = 0
      and ended = "\<lambda>_. True"
      and h = True and who = Helper and ?m1.0 = 0 and wt = Suc and wp = Suc
      and s' = demoWorkers]
  by (simp add: demoWorkers_eq newScheduler_def Scheduler_stop_def
      joinThread_eq joinTargets_def requestStop_def helperThread_def wait_def Let_def
      stop_Processor_stop emptyProcessor_def)

subsection \<open>The main loop of a Processor\<close>

text \<open>
  C3: \<^verbatim>\<open>Processor::run\<close> loops while the stop flag is unset or the runnable queue is not
  empty. An iteration swaps in the head of the runnable queue, or the epoll coroutine when
  the queue is empty; when the coroutine comes back in state TERM the load counter is
  decremented and the coroutine pushed on the idle list; then the pending tasks, those left
  from before and those submitted during the turn, are moved to the tail of the runnable
  queue in their order, each in a coroutine taken from the idle list or newly allocated
  that carries the callback and the name of the task, which leaves the pending buffer
  empty. The loop is left only with
  the stop flag set and the runnable queue empty; \<^verbatim>\<open>run\<close> then swaps in the epoll
  coroutine once more and returns. Every coroutine that is in the runnable queue at some
  point, in particular when stop is requested, has been swapped in by the time the loop
  is left, and already after as many iterations as the queue was long; when the stop flag
  is set and the queued coroutines make no call of their own, the loop is left after
  exactly these iterations.
\<close>

theorem run_loop_behaviour:
  "(run_iter e t p = Inr p1 \<longrightarrow>
      (\<exists>p2. swapIn (fst (pickCur e p)) t (snd (pickCur e p)) = Inr p2 \<and>
            getState (fst (pickCur e p)) p2 = result t \<and>
            addPendingTasksIntoQueue
              (if result t = State.TERM
               then p2\<lparr>load := load p2 - 1, idleCoQue := idleCoQue p2 @ [fst (pickCur e p)]\<rparr>
               else p2) = Inr p1) \<and>
      fst (pickCur e p) = (if runnableCoQue p = [] then e else hd (runnableCoQue p)) \<and>
      swapLog p1 = swapLog p @ [fst (pickCur e p)] \<and>
      pendingTasks p1 = []) \<and>
   (run_loop e ts p = Exit ts' p' \<longrightarrow>
      stop p' \<and> runnableCoQue p' = [] \<and>
      (\<exists>used. ts = used @ ts' \<and> length (swapLog p') = length (swapLog p) + length used)) \<and>
   (stop p \<and> runnableCoQue p = [] \<longrightarrow> run_loop e ts p = Exit ts p) \<and>
   (\<not> stop p \<or> runnableCoQue p \<noteq> [] \<longrightarrow>
      run_loop e [] p = Unfinished p \<and>
      run_loop e (t # ts) p =
        (case run_iter e t p of Inl er \<Rightarrow> Raised er | Inr q \<Rightarrow> run_loop e ts q)) \<and>
   (run_loop e ts p = Exit ts' p' \<or>
    run_loop e ts p = Unfinished p' \<and> length (runnableCoQue p) \<le> length ts \<longrightarrow>
      prefix (swapLog p @ runnableCoQue p) (swapLog p')) \<and>
   (stop p \<and> pendingTasks p = [] \<and> distinct (runnableCoQue p) \<and>
    (\<forall>c\<in>set (runnableCoQue p). getState c p \<noteq> State.TERM \<and> getState c p \<noteq> EXCEPT) \<and>
    length (runnableCoQue p) \<le> length ts \<and>
    (\<forall>u\<in>set (take (length (runnableCoQue p)) ts). actions u = []) \<longrightarrow>
      (\<exists>q. run_loop e ts p = Exit (drop (length (runnableCoQue p)) ts) q \<and>
           swapLog q = swapLog p @ runnableCoQue p)) \<and>
   (run tid ts p = Some (Inr pf) \<longrightarrow>
      (\<exists>u us pl. run_loop (fst (run_init p)) ts (snd (run_init p)) = Exit (u # us) pl \<and>
         stop pl \<and> runnableCoQue pl = [] \<and>
         swapIn (fst (run_init p)) u pl = Inr pf \<and>
         swapLog pf = swapLog pl @ [fst (run_init p)])) \<and>
   (threadId p = tid \<and>
    run_loop (fst (run_init p)) ts (snd (run_init p)) = Exit (t # ts') p' \<longrightarrow>
      run tid ts p = Some (swapIn (fst (run_init p)) t p')) \<and>
   (addPendingTasksIntoQueue q = Inr q' \<longrightarrow>
      pendingTasks q' = [] \<and>
      runnableCoQue q' = runnableCoQue q @ recycled (length (pendingTasks q)) q \<and>
      length (recycled (length (pendingTasks q)) q) = length (pendingTasks q) \<and>
      idleCoQue q' = drop (length (pendingTasks q)) (idleCoQue q) \<and>
      (list_all (\<lambda>x. x < nextCo q) (idleCoQue q) \<longrightarrow>
         tasksOf q' (recycled (length (pendingTasks q)) q) = pendingTasks q \<and>
         list_all (\<lambda>c. getState c q' = EXEC) (recycled (length (pendingTasks q)) q))) \<and>
   (idleAllTerm q \<longrightarrow> (\<exists>q1. addPendingTasksIntoQueue q = Inr q1)) \<and>
   (run_iter e t p = Inr p1 \<longrightarrow>
      (\<exists>r. addPendingTasksIntoQueue r = Inr p1 \<and>
           pendingTasks r = pendingTasks p @ pendingAdds (actions t) \<and>
           (\<exists>added. runnableCoQue r = tl (runnableCoQue p) @ added) \<and>
           runnableCoQue p1 = runnableCoQue r @ recycled (length (pendingTasks r)) r \<and>
           (list_all (\<lambda>x. x < nextCo r) (idleCoQue r) \<longrightarrow>
              tasksOf p1 (recycled (length (pendingTasks r)) r) = pendingTasks r)))"
  (is "?iter \<and> ?exit \<and> ?leave \<and> ?go \<and> ?exec \<and> ?quiet \<and> ?ret \<and> ?fin \<and>
       ?drain \<and> ?drains \<and> ?enq")
proof -
  have drain: ?drain
  proof
    assume a: "addPendingTasksIntoQueue q = Inr q'"
    have "length (recycled (length (pendingTasks q)) q) = length (pendingTasks q)"
      by (simp add: recycled_def)
    with drain_exact [OF a]
    show "pendingTasks q' = [] \<and>
      runnableCoQue q' = runnableCoQue q @ recycled (length (pendingTasks q)) q \<and>
      length (recycled (length (pendingTasks q)) q) = length (pendingTasks q) \<and>
      idleCoQue q' = drop (length (pendingTasks q)) (idleCoQue q) \<and>
      (list_all (\<lambda>x. x < nextCo q) (idleCoQue q) \<longrightarrow>
         tasksOf q' (recycled (length (pendingTasks q)) q) = pendingTasks q \<and>
         list_all (\<lambda>c. getState c q' = EXEC) (recycled (length (pendingTasks q)) q))"
      by (intro conjI)
  qed
  have drains: ?drains
    using drain_grows [of q] by blast
  have enq: ?enq
  proof
    assume a: "run_iter e t p = Inr p1"
    let ?cur = "fst (pickCur e p)" and ?q = "snd (pickCur e p)"
    from a obtain p2 where s: "swapIn ?cur t ?q = Inr p2"
      and d: "addPendingTasksIntoQueue (retire ?cur p2) = Inr p1"
      by (auto simp: run_iter_def split: prod.splits sum.splits)
    let ?r = "retire ?cur p2"
    have pend: "pendingTasks ?r = pendingTasks p @ pendingAdds (actions t)"
      using swapIn_fields(2) [OF s] by (simp add: retire_fields pickCur_fields)
    from swapIn_fields(4) [OF s] obtain added
      where "runnableCoQue p2 = tl (runnableCoQue p) @ added"
      by (auto simp: pickCur_fields)
    then have que: "\<exists>added. runnableCoQue ?r = tl (runnableCoQue p) @ added"
      by (simp add: retire_fields)
    from d pend que drain_exact(2,4) [OF d]
    have "addPendingTasksIntoQueue ?r = Inr p1 \<and>
           pendingTasks ?r = pendingTasks p @ pendingAdds (actions t) \<and>
           (\<exists>added. runnableCoQue ?r = tl (runnableCoQue p) @ added) \<and>
           runnableCoQue p1 = runnableCoQue ?r @ recycled (length (pendingTasks ?r)) ?r \<and>
           (list_all (\<lambda>x. x < nextCo ?r) (idleCoQue ?r) \<longrightarrow>
              tasksOf p1 (recycled (length (pendingTasks ?r)) ?r) = pendingTasks ?r)"
      by blast
    then show "\<exists>r. addPendingTasksIntoQueue r = Inr p1 \<and>
           pendingTasks r = pendingTasks p @ pendingAdds (actions t) \<and>
           (\<exists>added. runnableCoQue r = tl (runnableCoQue p) @ added) \<and>
           runnableCoQue p1 = runnableCoQue r @ recycled (length (pendingTasks r)) r \<and>
           (list_all (\<lambda>x. x < nextCo r) (idleCoQue r) \<longrightarrow>
              tasksOf p1 (recycled (length (pendingTasks r)) r) = pendingTasks r)"
      by (rule exI)
  qed
  have iter: ?iter
  proof
    assume a: "run_iter e t p = Inr p1"
    let ?cur = "fst (pickCur e p)" and ?q = "snd (pickCur e p)"
    from a obtain p2 where s: "swapIn ?cur t ?q = Inr p2"
      and d: "addPendingTasksIntoQueue (retire ?cur p2) = Inr p1"
      by (auto simp: run_iter_def split: prod.splits sum.splits)
    have g: "getState ?cur p2 = result t"
      by (rule swapIn_fields(6) [OF s])
    then have "retire ?cur p2 =
        (if result t = State.TERM
         then p2\<lparr>load := load p2 - 1, idleCoQue := idleCoQue p2 @ [?cur]\<rparr> else p2)"
      by (simp add: retire_def)
    with s d g have "\<exists>p2. swapIn ?cur t ?q = Inr p2 \<and> getState ?cur p2 = result t \<and>
            addPendingTasksIntoQueue
              (if result t = State.TERM
               then p2\<lparr>load := load p2 - 1, idleCoQue := idleCoQue p2 @ [?cur]\<rparr>
               else p2) = Inr p1"
      by auto
    then show "(\<exists>p2. swapIn ?cur t ?q = Inr p2 \<and> getState ?cur p2 = result t \<and>
            addPendingTasksIntoQueue
              (if result t = State.TERM
               then p2\<lparr>load := load p2 - 1, idleCoQue := idleCoQue p2 @ [?cur]\<rparr>
               else p2) = Inr p1) \<and>
      ?cur = (if runnableCoQue p = [] then e else hd (runnableCoQue p)) \<and>
      swapLog p1 = swapLog p @ [?cur] \<and> pendingTasks p1 = []"
      using run_iter_fields(2,3) [OF a] by (simp add: pickCur_fields)
  qed
  have exit: ?exit
    using run_loop_Exit by blast
  have leave: ?leave
    by (cases ts) (simp_all add: loopCond_def)
  have go: ?go
    by (auto simp: loopCond_def)
  have exec: ?exec
    using run_loop_executes_queue [of e ts p ts' p'] by blast
  have quiet: ?quiet
    using run_loop_quiet [of p ts e] by blast
  have ret: ?ret
  proof
    assume a: "run tid ts p = Some (Inr pf)"
    let ?e = "fst (run_init p)" and ?p1 = "snd (run_init p)"
    from a obtain u us pl where l: "run_loop ?e ts ?p1 = Exit (u # us) pl"
      and f: "swapIn ?e u pl = Inr pf"
      by (auto simp: run_def assertInProcThread_def abortNotInProcThread_def CRITICAL_def
          split: if_splits prod.splits loop_result.splits list.splits)
    from run_loop_Exit [OF l] have "stop pl" "runnableCoQue pl = []"
      by simp_all
    with l f swapIn_fields(3) [OF f]
    show "\<exists>u us pl. run_loop ?e ts ?p1 = Exit (u # us) pl \<and> stop pl \<and> runnableCoQue pl = [] \<and>
         swapIn ?e u pl = Inr pf \<and> swapLog pf = swapLog pl @ [?e]"
      by blast
  qed
  have fin: ?fin
    by (auto simp: run_def assertInProcThread_def isInProcThread_def split: prod.splits)
  from iter exit leave go exec quiet ret fin drain drains enq show ?thesis
    by (intro conjI)
qed

theorem run_loop_behaviour_witness:
  "run 1 demoScript demoProcessor = Some (Inr (projr (the (run 1 demoScript demoProcessor)))) \<and>
   swapLog (projr (the (run 1 demoScript demoProcessor))) = [0, 1, 3, 4, 2] \<and>
   idleCoQue (projr (the (run 1 demoScript demoProcessor))) = [3, 4] \<and>
   stop (demoProcessor\<lparr>stop := True\<rparr>) \<and>
   pendingTasks (demoProcessor\<lparr>stop := True\<rparr>) = [] \<and>
   runnableCoQue (demoProcessor\<lparr>stop := True\<rparr>) = [0, 1] \<and>
   getState 0 (demoProcessor\<lparr>stop := True\<rparr>) = EXEC \<and>
   getState 1 (demoProcessor\<lparr>stop := True\<rparr>) = EXEC \<and>
   unused (run_loop 2 (take 1 demoScript @ take 1 demoScript @ take 1 demoScript)
             (demoProcessor\<lparr>stop := True\<rparr>)) = take 1 demoScript \<and>
   swapLog (exitState (run_loop 2 (take 1 demoScript @ take 1 demoScript @ take 1 demoScript)
             (demoProcessor\<lparr>stop := True\<rparr>))) = [0, 1] \<and>
   run_loop 2 [] demoProcessor = Unfinished demoProcessor \<and>
   idleAllTerm demoDrain \<and>
   idleCoQue demoDrain = [3, 4] \<and> nextCo demoDrain = 5 \<and> runnableCoQue demoDrain = [] \<and>
   pendingTasks demoDrain = [(UserCb 9, ''p1''), (UserCb 10, ''p2''), (UserCb 11, ''p3'')] \<and>
   addPendingTasksIntoQueue demoDrain = Inr (projr (addPendingTasksIntoQueue demoDrain)) \<and>
   runnableCoQue (projr (addPendingTasksIntoQueue demoDrain)) = [3, 4, 5] \<and>
   tasksOf (projr (addPendingTasksIntoQueue demoDrain)) [3, 4, 5]
     = [(UserCb 9, ''p1''), (UserCb 10, ''p2''), (UserCb 11, ''p3'')] \<and>
   run_iter 2 (hd demoScript) demoDrain = Inr (projr (run_iter 2 (hd demoScript) demoDrain)) \<and>
   runnableCoQue (projr (run_iter 2 (hd demoScript) demoDrain)) = [3, 4, 5]"
  using run_loop_behaviour [where e = 2 and t = "hd demoScript"
      and p = "demoProcessor\<lparr>stop := True\<rparr>"
      and ?p1.0 = "projr (run_iter 2 (hd demoScript) (demoProcessor\<lparr>stop := True\<rparr>))"
      and ts = "take 1 demoScript @ take 1 demoScript @ take 1 demoScript"
      and ts' = "take 1 demoScript"
      and p' = "exitState (run_loop 2 (take 1 demoScript @ take 1 demoScript @ take 1 demoScript)
             (demoProcessor\<lparr>stop := True\<rparr>))"
      and tid = 1 and pf = "demoProcessor"
      and q = demoDrain and q' = "projr (addPendingTasksIntoQueue demoDrain)"]
    run_loop_behaviour [where e = 2 and t = "hd demoScript" and p = "demoProcessor"
      and ?p1.0 = "projr (run_iter 2 (hd demoScript) demoProcessor)"
      and ts = "demoScript" and ts' = "[]" and p' = "demoProcessor"
      and tid = 1 and pf = "projr (the (run 1 demoScript demoProcessor))"
      and q = demoDrain and q' = "projr (addPendingTasksIntoQueue demoDrain)"]
    run_loop_behaviour [where e = 2 and t = "hd demoScript" and p = "demoDrain"
      and ?p1.0 = "projr (run_iter 2 (hd demoScript) demoDrain)"
      and ts = "[]" and ts' = "[]" and p' = "demoDrain"
      and tid = 1 and pf = "demoDrain"
      and q = demoDrain and q' = "projr (addPendingTasksIntoQueue demoDrain)"]
  by (simp add: demoProcessor_def demoScript_def demoDrain_def eval_defs addPendingTask_def
      recycled_def tasksOf_def idleAllTerm_def)

subsection \<open>The load counter\<close>

text \<open>
  C5, as stated, does not hold: after the first iteration of the loop, in which the
  ``Wake'' coroutine swaps out without terminating, the load counter is 2 while one
  coroutine is left in the runnable queue and none is running.
\<close>

theorem load_counts_suspended_counterexample:
  "load (projr (run_iter 2 \<lparr>actions = [], result = HOLD\<rparr> (snd (run_init demoProcessor)))) = 2 \<and>
   runnableCoQue (projr (run_iter 2 \<lparr>actions = [], result = HOLD\<rparr> (snd (run_init demoProcessor)))) = [1] \<and>
   getState 0 (projr (run_iter 2 \<lparr>actions = [], result = HOLD\<rparr> (snd (run_init demoProcessor)))) = HOLD"
  by (simp add: demoProcessor_def eval_defs)

text \<open>
  C5 (amended): the load counter starts at 0 and \<^verbatim>\<open>addTask\<close> increments it by one for each
  coroutine it enqueues. An iteration of the loop of \<^verbatim>\<open>run\<close> decrements it by one exactly
  when the coroutine it swapped in comes back in state TERM; the swap into the epoll
  coroutine that \<^verbatim>\<open>run\<close> makes after the loop does not decrement it, whatever the state
  the coroutine comes back in. Over an iteration, over the loop and over the whole of
  \<^verbatim>\<open>run\<close> the counter therefore changes by the number of coroutines added minus the
  number of iterations of the loop that ended in TERM (modulo \<open>2^64\<close>): it counts the
  coroutines added and not yet seen in state TERM by the loop, among them those that have
  swapped out and wait outside the runnable queue.
\<close>

theorem load_counter_balance:
  "load (emptyProcessor tid) = 0 \<and>
   load (addTask co p) = load p + 1 \<and>
   (addTaskCb c n p = Inr p1 \<longrightarrow> load p1 = load p + 1) \<and>
   (swapIn cur t p = Inr p2 \<longrightarrow>
      load (retire cur p2) = load p2 - (if result t = State.TERM then 1 else 0)) \<and>
   (run_iter e t p = Inr p3 \<longrightarrow>
      load p3 = load p
        + of_nat (localAdds (actions t) + length (pendingAdds (actions t))
                  + length (pendingTasks p))
        - (if result t = State.TERM then 1 else 0)) \<and>
   (run_loop e ts p = Exit ts' p' \<longrightarrow>
      (\<exists>used. ts = used @ ts' \<and>
         load p' = load p
           + of_nat ((if used = [] then 0 else length (pendingTasks p)) +
                     sum_list (map (\<lambda>u. localAdds (actions u) + length (pendingAdds (actions u)))
                                used))
           - of_nat (length (filter (\<lambda>u. result u = State.TERM) used)))) \<and>
   (swapIn cur t p = Inr p2 \<longrightarrow> load p2 = load p + of_nat (localAdds (actions t))) \<and>
   (run tid ts p = Some (Inr pf) \<longrightarrow>
      (\<exists>used u rest. ts = used @ u # rest \<and>
         load pf = load p
           + of_nat ((if used = [] then 0 else length (pendingTasks p)) +
                     sum_list (map (\<lambda>u. localAdds (actions u) + length (pendingAdds (actions u)))
                                used) +
                     localAdds (actions u))
           - of_nat (length (filter (\<lambda>u. result u = State.TERM) used))))"
  (is "?a \<and> ?b \<and> ?c \<and> ?d \<and> ?e \<and> ?f \<and> ?g \<and> ?h")
proof -
  have a: ?a by (simp add: emptyProcessor_def)
  have b: ?b by (simp add: addTask_fields)
  have c: ?c using addTaskCb_fields(1) [of c n p p1] by blast
  have d: ?d using swapIn_fields(6) [of cur t p p2] by (auto simp: retire_fields)
  have e: ?e using run_iter_fields(1) [of e t p p3] by blast
  have f: ?f using run_loop_load [of e ts p ts' p'] by blast
  have g: ?g using swapIn_fields(1) [of cur t p p2] by blast
  have h: ?h using run_load [of tid ts p pf] by blast
  from a b c d e f g h show ?thesis by (intro conjI)
qed

theorem load_counter_balance_witness:
  "addTaskCb (UserCb 7) ''job'' demoProcessor = Inr (projr (addTaskCb (UserCb 7) ''job'' demoProcessor)) \<and>
   load (projr (addTaskCb (UserCb 7) ''job'' demoProcessor)) = 3 \<and>
   swapIn 0 (demoScript ! 3) demoProcessor = Inr (projr (swapIn 0 (demoScript ! 3) demoProcessor)) \<and>
   load (retire 0 (projr (swapIn 0 (demoScript ! 3) demoProcessor))) = 1 \<and>
   run_iter 2 (demoScript ! 1) demoProcessor = Inr (projr (run_iter 2 (demoScript ! 1) demoProcessor)) \<and>
   load (projr (run_iter 2 (demoScript ! 1) demoProcessor)) = 4 \<and>
   run_loop 2 demoScript (snd (run_init demoProcessor))
     = Exit [demoScript ! 4] (exitState (run_loop 2 demoScript (snd (run_init demoProcessor)))) \<and>
   load (exitState (run_loop 2 demoScript (snd (run_init demoProcessor)))) = 2 \<and>
   run 1 (take 4 demoScript @ [\<lparr>actions = [], result = State.TERM\<rparr>]) demoProcessor
     = Some (Inr (projr (the (run 1 (take 4 demoScript @ [\<lparr>actions = [], result = State.TERM\<rparr>])
                               demoProcessor)))) \<and>
   load (projr (the (run 1 (take 4 demoScript @ [\<lparr>actions = [], result = State.TERM\<rparr>])
                       demoProcessor))) = 2 \<and>
   getState 2 (projr (the (run 1 (take 4 demoScript @ [\<lparr>actions = [], result = State.TERM\<rparr>])
                             demoProcessor))) = State.TERM"
  using load_counter_balance [where tid = 1 and co = 0 and p = demoProcessor
      and c = "UserCb 7" and n = "''job''"
      and ?p1.0 = "projr (addTaskCb (UserCb 7) ''job'' demoProcessor)"
      and cur = 0 and t = "demoScript ! 3"
      and ?p2.0 = "projr (swapIn 0 (demoScript ! 3) demoProcessor)"
      and e = 2 and ?p3.0 = "projr (run_iter 2 (demoScript ! 3) demoProcessor)"
      and ts = "[]" and ts' = "[]" and p' = demoProcessor and pf = demoProcessor]
    load_counter_balance [where tid = 1 and co = 0 and p = demoProcessor
      and c = "UserCb 7" and n = "''job''"
      and ?p1.0 = "projr (addTaskCb (UserCb 7) ''job'' demoProcessor)"
      and cur = 0 and t = "demoScript ! 1"
      and ?p2.0 = "projr (swapIn 0 (demoScript ! 1) demoProcessor)"
      and e = 2 and ?p3.0 = "projr (run_iter 2 (demoScript ! 1) demoProcessor)"
      and ts = "[]" and ts' = "[]" and p' = demoProcessor and pf = demoProcessor]
    load_counter_balance [where tid = 1 and co = 0 and p = "snd (run_init demoProcessor)"
      and c = "UserCb 7" and n = "''job''"
      and ?p1.0 = "projr (addTaskCb (UserCb 7) ''job'' demoProcessor)"
      and cur = 0 and t = "demoScript ! 1"
      and ?p2.0 = "projr (swapIn 0 (demoScript ! 1) demoProcessor)"
      and e = 2 and ?p3.0 = "projr (run_iter 2 (demoScript ! 1) demoProcessor)"
      and ts = "demoScript" and ts' = "[demoScript ! 4]"
      and p' = "exitState (run_loop 2 demoScript (snd (run_init demoProcessor)))"
      and pf = demoProcessor]
    load_counter_balance [where tid = 1 and co = 0 and p = demoProcessor
      and c = "UserCb 7" and n = "''job''"
      and ?p1.0 = "projr (addTaskCb (UserCb 7) ''job'' demoProcessor)"
      and cur = 0 and t = "demoScript ! 1"
      and ?p2.0 = "projr (swapIn 0 (demoScript ! 1) demoProcessor)"
      and e = 2 and ?p3.0 = "projr (run_iter 2 (demoScript ! 1) demoProcessor)"
      and ts = "take 4 demoScript @ [\<lparr>actions = [], result = State.TERM\<rparr>]" and ts' = "[]"
      and p' = demoProcessor
      and pf = "projr (the (run 1 (take 4 demoScript @ [\<lparr>actions = [], result = State.TERM\<rparr>])
                                demoProcessor))"]
  by (simp add: demoProcessor_def demoScript_def eval_defs)

subsection \<open>Recycling coroutines of the idle list\<close>

text \<open>
  C7, as stated, does not hold for every execution: a coroutine that has terminated and
  sits on the idle list can be handed to \<^verbatim>\<open>addTask(Coroutine::ptr)\<close> again, which sets
  it to EXEC; the next \<^verbatim>\<open>addTask(callback, name)\<close> takes it from the idle list and calls
  \<^verbatim>\<open>reset\<close> on it in state EXEC.
\<close>

theorem reset_on_EXEC_counterexample:
  "run 1 staleScript demoProcessor = Some (Inl (AssertionFailed ''reset'')) \<and>
   admissibleRun staleScript demoProcessor = False"
  by (simp add: demoProcessor_def staleScript_def eval_defs admissibleRun_def admissibleTurn_def)

text \<open>
  C7 (amended): \<^verbatim>\<open>run\<close> pushes a coroutine on the idle list only after it has seen it in
  state TERM. As long as no coroutine that sits on the idle list is passed to
  \<^verbatim>\<open>addTask(Coroutine::ptr)\<close>, the idle list holds distinct coroutines in state TERM,
  \<^verbatim>\<open>resetAndGetCo\<close> succeeds, and no \<^verbatim>\<open>reset\<close> is made on a coroutine that is neither in
  state TERM nor in state INIT, during the loop and during the whole of \<^verbatim>\<open>run\<close>.
\<close>

theorem reset_only_on_TERM:
  "(idleAllTerm p \<longrightarrow> (\<exists>co q. resetAndGetCo c n p = Inr (co, q) \<and> idleAllTerm q)) \<and>
   (swapIn cur t p = Inr p2 \<longrightarrow>
      idleCoQue (retire cur p2) =
        (if result t = State.TERM then idleCoQue p2 @ [cur] else idleCoQue p2)) \<and>
   (idleAllTerm p \<and> knownCoroutines e p \<and> admissibleScript e ts p \<longrightarrow>
      run_loop e ts p \<noteq> Raised (AssertionFailed ''reset'') \<and>
      (run_loop e ts p = Exit ts' p' \<or> run_loop e ts p = Unfinished p' \<longrightarrow> idleAllTerm p')) \<and>
   (idleAllTerm p \<and> list_all (\<lambda>x. x < nextCo p) (runnableCoQue p) \<and> admissibleRun ts p \<longrightarrow>
      run tid ts p \<noteq> Some (Inl (AssertionFailed ''reset''))) \<and>
   idleAllTerm (emptyProcessor tid) \<and>
   (Processor_ctor False tid = Inr p0 \<longrightarrow>
      idleAllTerm p0 \<and> list_all (\<lambda>x. x < nextCo p0) (runnableCoQue p0))"
  (is "?a \<and> ?b \<and> ?c \<and> ?d \<and> ?e \<and> ?f")
proof -
  have a: ?a using resetAndGetCo_ok [of p c n] by blast
  have b: ?b using swapIn_fields(6) [of cur t p p2] by (auto simp: retire_fields)
  have c: ?c using run_loop_ok [of p e ts] by auto
  have d: ?d using run_no_reset_failure [of p ts tid] by blast
  have e: ?e by (simp add: idleAllTerm_def emptyProcessor_def)
  have f: ?f
    by (auto simp: Processor_ctor_def emptyProcessor_def proc_defs Let_def idleAllTerm_def)
  from a b c d e f show ?thesis by (intro conjI)
qed

theorem reset_only_on_TERM_witness:
  "idleAllTerm demoProcessor \<and>
   list_all (\<lambda>x. x < nextCo demoProcessor) (runnableCoQue demoProcessor) \<and>
   admissibleRun recycleScript demoProcessor \<and>
   run 1 recycleScript demoProcessor
     = Some (Inr (projr (the (run 1 recycleScript demoProcessor)))) \<and>
   swapLog (projr (the (run 1 recycleScript demoProcessor))) = [0, 1, 3, 2, 3, 0, 2] \<and>
   idleCoQue (projr (the (run 1 recycleScript demoProcessor))) = [3, 0] \<and>
   idleAllTerm (projr (the (run 1 recycleScript demoProcessor)))"
  using reset_only_on_TERM [where p = demoProcessor and c = "UserCb 7" and n = "''job''"
      and cur = 0 and t = "demoScript ! 3"
      and ?p2.0 = "projr (swapIn 0 (demoScript ! 3) demoProcessor)"
      and e = 2 and ts = recycleScript and ts' = "[]" and p' = demoProcessor
      and tid = 1 and ?p0.0 = demoProcessor]
  by (simp add: demoProcessor_def demoScript_def recycleScript_def eval_defs admissibleRun_def
      admissibleTurn_def idleAllTerm_def knownCoroutines_def)

end
